theory Spec2Isabelle
  imports Complex_Main "HOL-Library.AList"
begin

section \<open>The device tracker of \<^verbatim>\<open>bt_watch.py\<close>\<close>

text \<open>
  A shallow embedding of the class \<^verbatim>\<open>DeviceTracker\<close> and of the driver loop of
  \<^verbatim>\<open>BTWatcher.run\<close>.

  \<^item> A \<^verbatim>\<open>datetime\<close> is an \<open>int\<close>: its number of microseconds since a fixed epoch
    (the resolution of Python's \<^verbatim>\<open>datetime\<close>). All timestamps are UTC-aware, as the
    driver produces them, so subtracting two of them never raises.
  \<^item> \<^verbatim>\<open>(now - last).total_seconds()\<close> is a float: the binary64 number nearest to the
    microseconds divided by \<open>10^6\<close>, ties to the even mantissa. It is modelled as that
    number, a \<open>rat\<close>, and \<^verbatim>\<open>> grace\<close> compares it with the integer exactly, as Python
    does. The comparison agrees with \<open>now - last > grace * 10^6\<close> whenever the two times
    are less than \<open>2^34\<close> seconds apart, and not always beyond.
  \<^item> The dictionary \<^verbatim>\<open>self.devices\<close> keeps insertion order, and the order of the
    returned events is its iteration order: it is an association list, a new key goes
    to the end (\<open>AList.update\<close>), \<^verbatim>\<open>del\<close> is \<open>AList.delete\<close>.
  \<^item> The inner dictionary of a device has the keys \<^verbatim>\<open>consecutive\<close>,
    \<^verbatim>\<open>last_rssi\<close>, \<^verbatim>\<open>name\<close>, \<^verbatim>\<open>address_type\<close> and \<^verbatim>\<open>active\<close> from the literal
    that creates it, and no code deletes a key; \<^verbatim>\<open>last_seen\<close> and \<^verbatim>\<open>seen\<close> are not
    in that literal and are \<open>option\<close>s: \<open>None\<close> is the missing key.
  \<^item> Reading a missing key with \<^verbatim>\<open>d[k]\<close> raises \<^verbatim>\<open>KeyError\<close>: the result
    \<open>Inl KeyError\<close>.
\<close>

datatype py_error = KeyError

record observation =
  timestamp :: int
  mac :: string
  name :: string
  address_type :: string
  rssi :: int

record info =
  consecutive :: int
  last_rssi :: int
  info_name :: string
  info_address_type :: string
  active :: bool
  last_seen :: "int option"
  seen :: "bool option"

datatype event_type = NEW | LOST

record event =
  ev_type :: event_type
  ev_mac :: string
  ev_name :: string
  ev_rssi :: int

record tracker =
  devices :: "(string \<times> info) list"
  grace :: int
  weak_grace :: int

subsection \<open>\<^verbatim>\<open>DeviceTracker.__init__\<close>\<close>

definition DeviceTracker :: "int \<Rightarrow> int \<Rightarrow> tracker" where
  "DeviceTracker grace_seconds weak_grace_seconds =
     \<lparr>devices = [], grace = grace_seconds, weak_grace = weak_grace_seconds\<rparr>"

subsection \<open>\<^verbatim>\<open>DeviceTracker.new_scan\<close>\<close>

definition new_scan :: "tracker \<Rightarrow> tracker" where
  "new_scan t = t\<lparr>devices := map (\<lambda>(m, i). (m, i\<lparr>seen := Some False\<rparr>)) (devices t)\<rparr>"

subsection \<open>\<^verbatim>\<open>DeviceTracker.update\<close>\<close>

text \<open>The dictionary literal handed to \<^verbatim>\<open>setdefault\<close>.\<close>

definition default_info :: "observation \<Rightarrow> info" where
  "default_info obs =
     \<lparr>consecutive = 0, last_rssi = rssi obs, info_name = name obs,
      info_address_type = address_type obs, active = False,
      last_seen = None, seen = None\<rparr>"

definition setdefault :: "(string \<times> info) list \<Rightarrow> string \<Rightarrow> info \<Rightarrow> info" where
  "setdefault ds k d = (case map_of ds k of None \<Rightarrow> d | Some i \<Rightarrow> i)"

definition update :: "tracker \<Rightarrow> observation \<Rightarrow> tracker" where
  "update t obs =
     (let i = setdefault (devices t) (mac obs) (default_info obs);
          i' = i\<lparr>last_seen := Some (timestamp obs), last_rssi := rssi obs,
                 info_name := name obs, info_address_type := address_type obs,
                 seen := Some True\<rparr>
      in t\<lparr>devices := AList.update (mac obs) i' (devices t)\<rparr>)"

subsection \<open>\<^verbatim>\<open>DeviceTracker.finalize_scan\<close>\<close>

definition new_event :: "string \<Rightarrow> info \<Rightarrow> event" where
  "new_event m i = \<lparr>ev_type = NEW, ev_mac = m, ev_name = info_name i, ev_rssi = last_rssi i\<rparr>"

text \<open>The body of the loop, for one item of the dictionary.\<close>

definition finalize_info :: "string \<Rightarrow> info \<Rightarrow> py_error + (event list \<times> info)" where
  "finalize_info m i =
     (case seen i of
        None \<Rightarrow> Inl KeyError
      | Some s \<Rightarrow>
          if s then
            (let i1 = i\<lparr>consecutive := consecutive i + 1\<rparr>
             in if \<not> active i1 \<and> consecutive i1 \<ge> 2
                then Inr ([new_event m i1], i1\<lparr>active := True\<rparr>)
                else Inr ([], i1))
          else Inr ([], i\<lparr>consecutive := 0\<rparr>))"

fun finalize_items :: "(string \<times> info) list \<Rightarrow> py_error + (event list \<times> (string \<times> info) list)" where
  "finalize_items [] = Inr ([], [])"
| "finalize_items ((m, i) # rest) =
     (case finalize_info m i of
        Inl e \<Rightarrow> Inl e
      | Inr (ev, i') \<Rightarrow>
          (case finalize_items rest of
             Inl e \<Rightarrow> Inl e
           | Inr (evs, rest') \<Rightarrow> Inr (ev @ evs, (m, i') # rest')))"

definition finalize_scan :: "tracker \<Rightarrow> py_error + (event list \<times> tracker)" where
  "finalize_scan t =
     (case finalize_items (devices t) of
        Inl e \<Rightarrow> Inl e
      | Inr (evs, ds) \<Rightarrow> Inr (evs, t\<lparr>devices := ds\<rparr>))"

subsection \<open>\<^verbatim>\<open>DeviceTracker.check_lost\<close>\<close>

definition lost_event :: "string \<Rightarrow> info \<Rightarrow> event" where
  "lost_event m i = \<lparr>ev_type = LOST, ev_mac = m, ev_name = info_name i, ev_rssi = last_rssi i\<rparr>"

text \<open>\<^verbatim>\<open>grace = self.weak_grace if rssi < -90 else self.grace\<close>\<close>

definition effective_grace :: "int \<Rightarrow> int \<Rightarrow> info \<Rightarrow> int" where
  "effective_grace g wg i = (if last_rssi i < - 90 then wg else g)"

text \<open>
  \<^verbatim>\<open>timedelta.total_seconds()\<close> is \<^verbatim>\<open>self / timedelta(seconds=1)\<close>, the true division of
  the microseconds by \<open>10^6\<close>, which Python rounds correctly: the result is the binary64
  number nearest to the quotient, ties to the even mantissa. With \<open>2^e \<le> n / d < 2^(e+1)\<close>
  (\<open>binade\<close>, from the bit lengths of \<open>n\<close> and \<open>d\<close>), the binary64 numbers around the
  quotient are the multiples of \<open>2^(e-52)\<close>.
\<close>

fun bit_length :: "nat \<Rightarrow> nat" where
  "bit_length n = (if n = 0 then 0 else Suc (bit_length (n div 2)))"

definition pow2 :: "int \<Rightarrow> rat" where
  "pow2 k = (if 0 \<le> k then 2 ^ nat k else 1 / 2 ^ nat (- k))"

definition round_half_even :: "rat \<Rightarrow> int" where
  "round_half_even y =
     (let q = \<lfloor>y\<rfloor>; r = y - of_int q
      in if r < 1 / 2 then q else if 1 / 2 < r then q + 1 else if even q then q else q + 1)"

definition binade :: "int \<Rightarrow> int \<Rightarrow> int" where
  "binade n d =
     (let k = int (bit_length (nat n)) - int (bit_length (nat d))
      in if of_int d * pow2 k \<le> of_int n then k else k - 1)"

text \<open>For positive \<open>n\<close> and \<open>d\<close>.\<close>

definition nearest_double :: "int \<Rightarrow> int \<Rightarrow> rat" where
  "nearest_double n d =
     (let u = pow2 (binade n d - 52)
      in of_int (round_half_even (of_int n / of_int d / u)) * u)"

text \<open>Python's \<^verbatim>\<open>n / d\<close> on integers, for a positive \<open>d\<close>.\<close>

definition true_divide :: "int \<Rightarrow> int \<Rightarrow> rat" where
  "true_divide n d =
     (if n = 0 then 0 else if n < 0 then - nearest_double (- n) d else nearest_double n d)"

text \<open>
  A \<^verbatim>\<open>timedelta\<close>, in microseconds, lies between \<^verbatim>\<open>timedelta.min\<close> (-999999999 days)
  and \<^verbatim>\<open>timedelta.max\<close> (999999999 days, 23:59:59.999999). Two datetimes, both between
  the years 1 and 9999, always differ by a \<^verbatim>\<open>timedelta\<close>, whose seconds are far from
  the overflow and the subnormal numbers of binary64. The timestamps of the model are
  unbounded integers; for a difference that is no \<^verbatim>\<open>timedelta\<close>, which no two datetimes
  have and the code never computes, \<open>total_seconds\<close> is the exact quotient.
\<close>

definition timedelta_ok :: "int \<Rightarrow> bool" where
  "timedelta_ok d = (- 86399999913600000000 \<le> d \<and> d \<le> 86399999999999999999)"

definition total_seconds :: "int \<Rightarrow> rat" where
  "total_seconds d = (if timedelta_ok d then true_divide d 1000000 else of_int d / 1000000)"

text \<open>\<^verbatim>\<open>(now - last).total_seconds() > grace\<close>\<close>

definition silent_too_long :: "int \<Rightarrow> int \<Rightarrow> int \<Rightarrow> bool" where
  "silent_too_long now seen_at gr = (of_int gr < total_seconds (now - seen_at))"

text \<open>
  The loop runs over a snapshot of the keys, \<^verbatim>\<open>list(self.devices.keys())\<close>, and reads
  and deletes in the dictionary itself.
\<close>

fun check_lost_loop ::
  "int \<Rightarrow> int \<Rightarrow> int \<Rightarrow> string list \<Rightarrow> (string \<times> info) list \<Rightarrow>
   py_error + (event list \<times> (string \<times> info) list)" where
  "check_lost_loop g wg now [] ds = Inr ([], ds)"
| "check_lost_loop g wg now (m # ms) ds =
     (case map_of ds m of
        None \<Rightarrow> Inl KeyError
      | Some i \<Rightarrow>
          (case last_seen i of
             None \<Rightarrow> check_lost_loop g wg now ms ds
           | Some seen_at \<Rightarrow>
               if silent_too_long now seen_at (effective_grace g wg i)
               then (case check_lost_loop g wg now ms (AList.delete m ds) of
                       Inl e \<Rightarrow> Inl e
                     | Inr (evs, ds') \<Rightarrow> Inr (lost_event m i # evs, ds'))
               else check_lost_loop g wg now ms ds))"

definition check_lost :: "tracker \<Rightarrow> int \<Rightarrow> py_error + (event list \<times> tracker)" where
  "check_lost t now =
     (case check_lost_loop (grace t) (weak_grace t) now (map fst (devices t)) (devices t) of
        Inl e \<Rightarrow> Inl e
      | Inr (evs, ds) \<Rightarrow> Inr (evs, t\<lparr>devices := ds\<rparr>))"

subsection \<open>Sequences of calls\<close>

datatype op = NewScan | Update observation | FinalizeScan | CheckLost int

fun step :: "tracker \<Rightarrow> op \<Rightarrow> py_error + (event list \<times> tracker)" where
  "step t NewScan = Inr ([], new_scan t)"
| "step t (Update obs) = Inr ([], update t obs)"
| "step t FinalizeScan = finalize_scan t"
| "step t (CheckLost now) = check_lost t now"

text \<open>A run of calls, with the events each call returned.\<close>

fun run :: "tracker \<Rightarrow> op list \<Rightarrow> py_error + ((op \<times> event list) list \<times> tracker)" where
  "run t [] = Inr ([], t)"
| "run t (c # cs) =
     (case step t c of
        Inl e \<Rightarrow> Inl e
      | Inr (evs, t1) \<Rightarrow>
          (case run t1 cs of
             Inl e \<Rightarrow> Inl e
           | Inr (tr, t2) \<Rightarrow> Inr ((c, evs) # tr, t2)))"

definition events_of :: "(op \<times> event list) list \<Rightarrow> event list" where
  "events_of tr = concat (map snd tr)"

text \<open>
  One pass of the loop of \<^verbatim>\<open>BTWatcher.run\<close>: \<^verbatim>\<open>new_scan\<close>, an \<^verbatim>\<open>update\<close> for each
  observation of the scan, \<^verbatim>\<open>finalize_scan\<close>, \<^verbatim>\<open>check_lost\<close>.
\<close>

definition scan_ops :: "observation list \<Rightarrow> op list" where
  "scan_ops obss = NewScan # map Update obss @ [FinalizeScan]"

definition cycle_ops :: "observation list \<times> int \<Rightarrow> op list" where
  "cycle_ops c = scan_ops (fst c) @ [CheckLost (snd c)]"

subsection \<open>The events of one device\<close>

definition new_events_for :: "string \<Rightarrow> event list \<Rightarrow> event list" where
  "new_events_for a evs = filter (\<lambda>e. ev_type e = NEW \<and> ev_mac e = a) evs"

definition lost_events_for :: "string \<Rightarrow> event list \<Rightarrow> event list" where
  "lost_events_for a evs = filter (\<lambda>e. ev_type e = LOST \<and> ev_mac e = a) evs"

definition events_for :: "string \<Rightarrow> event list \<Rightarrow> event list" where
  "events_for a evs = filter (\<lambda>e. ev_mac e = a) evs"

subsection \<open>The state between calls\<close>

text \<open>
  What holds of the dictionary between calls: its keys are distinct (it is a
  dictionary), and every device has the keys \<^verbatim>\<open>seen\<close> and \<^verbatim>\<open>last_seen\<close>.
\<close>

definition info_ok :: "info \<Rightarrow> bool" where
  "info_ok i = (seen i \<noteq> None \<and> last_seen i \<noteq> None)"

definition tracker_ok :: "tracker \<Rightarrow> bool" where
  "tracker_ok t = (distinct (map fst (devices t)) \<and> list_all (\<lambda>(m, i). info_ok i) (devices t))"

subsection \<open>One device in a state\<close>

text \<open>The condition under which \<^verbatim>\<open>check_lost\<close> reports and deletes a device.\<close>

definition expired :: "int \<Rightarrow> int \<Rightarrow> int \<Rightarrow> info \<Rightarrow> bool" where
  "expired g wg now i =
     (case last_seen i of
        None \<Rightarrow> False
      | Some seen_at \<Rightarrow> silent_too_long now seen_at (effective_grace g wg i))"

text \<open>
  The \<^verbatim>\<open>consecutive\<close> and \<^verbatim>\<open>active\<close> of a device, 0 and false (the values a new record
  starts with) for a device that the dictionary does not have.
\<close>

definition consecutive_of :: "tracker \<Rightarrow> string \<Rightarrow> int" where
  "consecutive_of t a = (case map_of (devices t) a of None \<Rightarrow> 0 | Some i \<Rightarrow> consecutive i)"

definition active_of :: "tracker \<Rightarrow> string \<Rightarrow> bool" where
  "active_of t a = (case map_of (devices t) a of None \<Rightarrow> False | Some i \<Rightarrow> active i)"

subsection \<open>The inputs of the tests\<close>

text \<open>The observations of \<^verbatim>\<open>tests/test_tracker.py\<close>, with \<^verbatim>\<open>base\<close> at time 0.\<close>

definition test_obs :: observation where
  "test_obs = \<lparr>timestamp = 0, mac = ''AA:BB:CC:DD:EE:01'', name = ''Test'',
               address_type = ''public'', rssi = - 50\<rparr>"

definition test_obs_weak :: observation where
  "test_obs_weak = \<lparr>timestamp = 0, mac = ''AA:BB:CC:DD:EE:02'', name = ''Weak'',
                    address_type = ''public'', rssi = - 95\<rparr>"

definition test_obs_brief :: observation where
  "test_obs_brief = \<lparr>timestamp = 0, mac = ''AA:BB:CC:DD:EE:03'', name = ''Test'',
               address_type = ''public'', rssi = - 50\<rparr>"

definition test_obs_again :: observation where
  "test_obs_again = \<lparr>timestamp = 2000000, mac = ''AA:BB:CC:DD:EE:03'', name = ''Test'',
               address_type = ''public'', rssi = - 50\<rparr>"

text \<open>
  The tracker of the tests (grace 10 s, weak grace 20 s) after two scans that both saw
  the one observation \<open>obs\<close>.
\<close>

definition seen_twice :: "observation \<Rightarrow> tracker" where
  "seen_twice obs =
     \<lparr>devices = [(mac obs,
        \<lparr>consecutive = 2, last_rssi = rssi obs, info_name = name obs,
         info_address_type = address_type obs, active = True,
         last_seen = Some (timestamp obs), seen = Some True\<rparr>)],
      grace = 10, weak_grace = 20\<rparr>"

subsection \<open>The spec's words\<close>

text \<open>
  The data model's invariant in the spec's words, over the calls made so far and the
  events each returned: a record exists for an address if and only if an observation of
  it has been recorded and no expiry has reported it lost since. \<open>b\<close> says whether the
  record existed before the calls.
\<close>

fun tracked_spec :: "string \<Rightarrow> bool \<Rightarrow> (op \<times> event list) list \<Rightarrow> bool" where
  "tracked_spec a b [] = b"
| "tracked_spec a b ((Update obs, evs) # tr) = tracked_spec a (b \<or> mac obs = a) tr"
| "tracked_spec a b ((CheckLost now, evs) # tr) =
     tracked_spec a (b \<and> lost_events_for a evs = []) tr"
| "tracked_spec a b ((c, evs) # tr) = tracked_spec a b tr"

text \<open>
  When the state \<open>t\<close> that a call starts from justifies an event that the call returns,
  in the spec's words: a NEW event of \<^verbatim>\<open>finalize_scan\<close> is for a device of \<open>t\<close> seen in
  this scan, not yet active, whose hits reach 2; a LOST event of \<^verbatim>\<open>check_lost\<close> is for a
  device of \<open>t\<close> silent for more than its grace; both carry the address, name and
  signal strength of the device. The other two calls return no event.
\<close>

definition justified :: "tracker \<Rightarrow> op \<Rightarrow> event \<Rightarrow> bool" where
  "justified t c e =
     (case map_of (devices t) (ev_mac e) of
        None \<Rightarrow> False
      | Some i \<Rightarrow>
          (case c of
             FinalizeScan \<Rightarrow>
               seen i = Some True \<and> \<not> active i \<and> consecutive i + 1 \<ge> 2 \<and>
               e = \<lparr>ev_type = NEW, ev_mac = ev_mac e, ev_name = info_name i, ev_rssi = last_rssi i\<rparr>
           | CheckLost now \<Rightarrow>
               (case last_seen i of
                  None \<Rightarrow> False
                | Some s \<Rightarrow>
                    now - s > (if last_rssi i < - 90 then weak_grace t else grace t) * 1000000) \<and>
               e = \<lparr>ev_type = LOST, ev_mac = ev_mac e, ev_name = info_name i, ev_rssi = last_rssi i\<rparr>
           | _ \<Rightarrow> False))"

section \<open>Properties of the operations\<close>

subsection \<open>\<^verbatim>\<open>total_seconds\<close> against the exact quotient\<close>

declare bit_length.simps [simp del]



lemma pow2_powi: "pow2 k = 2 powi k"
  by (simp add: pow2_def power_int_def field_simps)

lemma pow2_pos [simp]: "0 < pow2 k"
  by (simp add: pow2_def)

lemma pow2_nonneg [simp]: "0 \<le> pow2 k"
  by (simp add: less_imp_le)

lemma pow2_nonzero [simp]: "pow2 k \<noteq> 0"
  by (simp add: pow2_def)

lemma pow2_add: "pow2 (a + b) = pow2 a * pow2 b"
  by (simp add: pow2_powi power_int_add)

lemma pow2_mono: "a \<le> b \<Longrightarrow> pow2 a \<le> pow2 b"
  by (simp add: pow2_powi power_int_increasing)

lemma pow2_less_cancel: "pow2 a < pow2 b \<Longrightarrow> a < b"
  using pow2_mono [of b a] by (cases "a < b") auto

lemma pow2_nat: "pow2 (int k) = 2 ^ k"
  by (simp add: pow2_def)

lemma bit_length_bounds:
  "0 < n \<Longrightarrow> 2 ^ (bit_length n - 1) \<le> n \<and> n < 2 ^ bit_length n"
proof (induction n rule: bit_length.induct)
  case (1 n)
  show ?case
  proof (cases "n div 2 = 0")
    case True
    with "1.prems" have "n = 1" by (simp add: div_eq_0_iff)
    then show ?thesis by (simp add: bit_length.simps)
  next
    case False
    with "1.IH" "1.prems" have ih: "2 ^ (bit_length (n div 2) - 1) \<le> n div 2"
      "n div 2 < 2 ^ bit_length (n div 2)" by auto
    from False have pos: "0 < bit_length (n div 2)" by (simp add: bit_length.simps)
    have "bit_length n = Suc (bit_length (n div 2))"
      using "1.prems" by (simp add: bit_length.simps)
    moreover have "2 ^ bit_length (n div 2) \<le> n"
    proof -
      from pos have "(2::nat) ^ bit_length (n div 2) = 2 * 2 ^ (bit_length (n div 2) - 1)"
        by (cases "bit_length (n div 2)") auto
      with ih(1) show ?thesis by linarith
    qed
    moreover have "n < 2 * 2 ^ bit_length (n div 2)" using ih(2) by linarith
    ultimately show ?thesis by simp
  qed
qed


lemma binade_bounds:
  assumes n: "0 < n" and d: "0 < d"
  shows "pow2 (binade n d) \<le> of_int n / of_int d \<and> of_int n / of_int d < pow2 (binade n d + 1)"
proof -
  let ?a = "bit_length (nat n)" and ?b = "bit_length (nat d)"
  let ?k = "int ?a - int ?b"
  from bit_length_bounds [of "nat n"] n have
    na: "2 ^ (?a - 1) \<le> nat n" "nat n < 2 ^ ?a" by auto
  from bit_length_bounds [of "nat d"] d have
    db: "2 ^ (?b - 1) \<le> nat d" "nat d < 2 ^ ?b" by auto
  from na(1) n have a1: "pow2 (int ?a - 1) \<le> of_int n"
  proof -
    from n have "0 < ?a" by (simp add: bit_length.simps)
    then have "pow2 (int ?a - 1) = 2 ^ (?a - 1)"
      by (simp add: pow2_def nat_diff_distrib')
    moreover from na(1) have "(2::rat) ^ (?a - 1) \<le> of_nat (nat n)"
      by (metis of_nat_le_iff of_nat_numeral of_nat_power)
    ultimately show ?thesis using n by simp
  qed
  from na(2) n have a2: "of_int n < pow2 (int ?a)"
  proof -
    from na(2) have "of_nat (nat n) < (2::rat) ^ ?a"
      by (metis of_nat_less_iff of_nat_numeral of_nat_power)
    then show ?thesis using n by (simp add: pow2_nat)
  qed
  from db(1) d have b1: "pow2 (int ?b - 1) \<le> of_int d"
  proof -
    from d have "0 < ?b" by (simp add: bit_length.simps)
    then have "pow2 (int ?b - 1) = 2 ^ (?b - 1)"
      by (simp add: pow2_def nat_diff_distrib')
    moreover from db(1) have "(2::rat) ^ (?b - 1) \<le> of_nat (nat d)"
      by (metis of_nat_le_iff of_nat_numeral of_nat_power)
    ultimately show ?thesis using d by simp
  qed
  from db(2) d have b2: "of_int d < pow2 (int ?b)"
  proof -
    from db(2) have "of_nat (nat d) < (2::rat) ^ ?b"
      by (metis of_nat_less_iff of_nat_numeral of_nat_power)
    then show ?thesis using d by (simp add: pow2_nat)
  qed
  have dpos: "(0::rat) < of_int d" using d by simp
  have up: "of_int n < of_int d * pow2 (?k + 1)"
  proof -
    have "pow2 (int ?a) = pow2 (int ?b - 1) * pow2 (?k + 1)"
      by (simp add: pow2_add [symmetric])
    also have "\<dots> \<le> of_int d * pow2 (?k + 1)"
      using b1 by (simp add: mult_right_mono less_imp_le)
    finally show ?thesis using a2 by simp
  qed
  have lo: "of_int d * pow2 (?k - 1) \<le> of_int n"
  proof -
    have "of_int d * pow2 (?k - 1) \<le> pow2 (int ?b) * pow2 (?k - 1)"
      using b2 by (simp add: mult_right_mono less_imp_le)
    also have "\<dots> = pow2 (int ?a - 1)"
      by (simp add: pow2_add [symmetric])
    finally show ?thesis using a1 by simp
  qed
  show ?thesis
  proof (cases "of_int d * pow2 ?k \<le> (of_int n :: rat)")
    case True
    then have "binade n d = ?k" by (simp add: binade_def)
    with True up dpos show ?thesis
      by (simp add: pos_le_divide_eq pos_divide_less_eq mult.commute)
  next
    case False
    then have "binade n d = ?k - 1" by (simp add: binade_def)
    with False lo dpos show ?thesis
      by (simp add: pos_le_divide_eq pos_divide_less_eq mult.commute)
  qed
qed

lemma round_half_even_bounds:
  "y - 1 / 2 \<le> of_int (round_half_even y) \<and> of_int (round_half_even y) \<le> y + 1 / 2"
proof -
  define q where "q = \<lfloor>y\<rfloor>"
  have "of_int q \<le> y" "y < of_int q + 1" unfolding q_def by linarith+
  then show ?thesis
    unfolding round_half_even_def Let_def q_def [symmetric] by auto
qed

lemma round_half_even_le: "y \<le> of_int g \<Longrightarrow> round_half_even y \<le> g"
proof -
  assume y: "y \<le> of_int g"
  show ?thesis
  proof (cases "y = of_int g")
    case True
    then show ?thesis by (simp add: round_half_even_def)
  next
    case False
    with y have "y < of_int g" by simp
    then have "\<lfloor>y\<rfloor> < g" by (simp add: floor_less_iff)
    then show ?thesis by (auto simp: round_half_even_def Let_def)
  qed
qed

lemma round_half_even_ge: "of_int g \<le> y \<Longrightarrow> g \<le> round_half_even y"
proof -
  assume "of_int g \<le> y"
  then have "g \<le> \<lfloor>y\<rfloor>" by (simp add: le_floor_iff)
  then show ?thesis by (auto simp: round_half_even_def Let_def)
qed


lemma nearest_double_le:
  assumes "0 < n" "0 < d" and x: "of_int n / of_int d \<le> (of_int g :: rat)"
    and small: "of_int n / of_int d < pow2 53"
  shows "nearest_double n d \<le> of_int g"
proof -
  let ?b = "binade n d"
  from binade_bounds [OF assms(1,2)] small have "pow2 ?b < pow2 53" by simp
  then have b: "?b < 53" by (rule pow2_less_cancel)
  define K where "K = nat (52 - ?b)"
  have u: "pow2 (?b - 52) = 1 / 2 ^ K" using b by (simp add: pow2_def K_def)
  have "of_int n / of_int d / pow2 (?b - 52) = of_int n / of_int d * 2 ^ K"
    by (simp add: u)
  also have "\<dots> \<le> of_int g * 2 ^ K" using x by (intro mult_right_mono) simp_all
  also have "\<dots> = of_int (g * 2 ^ K)" by simp
  finally have "round_half_even (of_int n / of_int d / pow2 (?b - 52)) \<le> g * 2 ^ K"
    by (rule round_half_even_le)
  then have "(of_int (round_half_even (of_int n / of_int d / pow2 (?b - 52))) :: rat)
               \<le> of_int (g * 2 ^ K)"
    by (simp only: of_int_le_iff)
  then have "of_int (round_half_even (of_int n / of_int d / pow2 (?b - 52))) * (1 / 2 ^ K)
               \<le> (of_int (g * 2 ^ K) :: rat) * (1 / 2 ^ K)"
    by (intro mult_right_mono) simp_all
  then show ?thesis by (simp add: nearest_double_def u)
qed

lemma nearest_double_ge:
  assumes "0 < n" "0 < d" and x: "(of_int g :: rat) \<le> of_int n / of_int d"
    and small: "of_int n / of_int d < pow2 53"
  shows "of_int g \<le> nearest_double n d"
proof -
  let ?b = "binade n d"
  from binade_bounds [OF assms(1,2)] small have "pow2 ?b < pow2 53" by simp
  then have b: "?b < 53" by (rule pow2_less_cancel)
  define K where "K = nat (52 - ?b)"
  have u: "pow2 (?b - 52) = 1 / 2 ^ K" using b by (simp add: pow2_def K_def)
  have "(of_int (g * 2 ^ K) :: rat) = of_int g * 2 ^ K" by simp
  also have "\<dots> \<le> of_int n / of_int d * 2 ^ K" using x by (intro mult_right_mono) simp_all
  also have "\<dots> = of_int n / of_int d / pow2 (?b - 52)" by (simp add: u)
  finally have "g * 2 ^ K \<le> round_half_even (of_int n / of_int d / pow2 (?b - 52))"
    by (rule round_half_even_ge)
  then have "(of_int (g * 2 ^ K) :: rat)
               \<le> of_int (round_half_even (of_int n / of_int d / pow2 (?b - 52)))"
    by (simp only: of_int_le_iff)
  then have "(of_int (g * 2 ^ K) :: rat) * (1 / 2 ^ K)
               \<le> of_int (round_half_even (of_int n / of_int d / pow2 (?b - 52))) * (1 / 2 ^ K)"
    by (intro mult_right_mono) simp_all
  then show ?thesis by (simp add: nearest_double_def u)
qed

lemma nearest_double_error:
  assumes "0 < n" "0 < d" and small: "of_int n / of_int d < pow2 e"
  shows "of_int n / of_int d - pow2 (e - 54) \<le> nearest_double n d \<and>
         nearest_double n d \<le> of_int n / of_int d + pow2 (e - 54)"
proof -
  let ?b = "binade n d" and ?x = "of_int n / of_int d :: rat"
  let ?u = "pow2 (?b - 52)"
  from binade_bounds [OF assms(1,2)] small have "pow2 ?b < pow2 e" by simp
  then have b: "?b < e" by (rule pow2_less_cancel)
  have half: "?u * (1 / 2) = pow2 (?b - 53)"
  proof -
    have "pow2 (?b - 52) = pow2 (?b - 53) * pow2 1" by (simp add: pow2_add [symmetric])
    then show ?thesis by (simp add: pow2_def)
  qed
  have le: "pow2 (?b - 53) \<le> pow2 (e - 54)" using b by (intro pow2_mono) simp
  define r :: rat where "r = of_int (round_half_even (?x / ?u))"
  have upos: "0 < ?u" by simp
  from round_half_even_bounds [of "?x / ?u"] have
    r: "?x / ?u - 1 / 2 \<le> r" "r \<le> ?x / ?u + 1 / 2" by (simp_all add: r_def)
  have f1: "(?x / ?u - 1 / 2) * ?u \<le> r * ?u" using r(1) upos
    by (intro mult_right_mono) simp_all
  have f2: "(?x / ?u - 1 / 2) * ?u = ?x - ?u * (1 / 2)"
    using upos by (simp add: field_simps)
  have f3: "r * ?u \<le> (?x / ?u + 1 / 2) * ?u" using r(2) upos
    by (intro mult_right_mono) simp_all
  have f4: "(?x / ?u + 1 / 2) * ?u = ?x + ?u * (1 / 2)"
    using upos by (simp add: field_simps)
  have f5: "nearest_double n d = r * ?u" by (simp add: nearest_double_def r_def Let_def)
  from f1 f2 f3 f4 f5 half have "?x - pow2 (?b - 53) \<le> nearest_double n d"
    "nearest_double n d \<le> ?x + pow2 (?b - 53)"
    by linarith+
  with le show ?thesis by linarith
qed


lemma true_divide_le:
  assumes d: "0 < d" and x: "of_int n / of_int d \<le> (of_int g :: rat)"
    and small: "of_int n / of_int d < pow2 53" "- pow2 53 < of_int n / (of_int d :: rat)"
  shows "true_divide n d \<le> of_int g"
proof -
  consider "n = 0" | "0 < n" | "n < 0" by linarith
  then show ?thesis
  proof cases
    case 1
    with x show ?thesis by (simp add: true_divide_def)
  next
    case 2
    with nearest_double_le [OF 2 d x small(1)] show ?thesis by (simp add: true_divide_def)
  next
    case 3
    then have pos: "0 < - n" by simp
    have x': "(of_int (- g) :: rat) \<le> of_int (- n) / of_int d" using x by simp
    have s': "of_int (- n) / of_int d < pow2 53" using small(2) by simp
    from nearest_double_ge [OF pos d x' s'] 3 show ?thesis by (simp add: true_divide_def)
  qed
qed

lemma total_seconds_sound:
  assumes "of_int g < total_seconds d"
  shows "g * 1000000 < d"
proof (rule ccontr)
  assume "\<not> g * 1000000 < d"
  then have le: "d \<le> g * 1000000" by simp
  then have "(of_int d :: rat) \<le> of_int (g * 1000000)" by (simp only: of_int_le_iff)
  then have x: "of_int d / of_int 1000000 \<le> (of_int g :: rat)" by simp
  show False
  proof (cases "timedelta_ok d")
    case False
    with assms x show False by (simp add: total_seconds_def)
  next
    case True
    then have "(of_int d :: rat) \<le> 86399999999999999999" "- 86399999913600000000 \<le> (of_int d :: rat)"
      unfolding timedelta_ok_def by (metis of_int_le_iff of_int_numeral of_int_minus)+
    then have "of_int d / of_int 1000000 < pow2 53" "- pow2 53 < of_int d / (of_int 1000000 :: rat)"
      by (simp_all add: pow2_def)
    from true_divide_le [OF _ x this] have "true_divide d 1000000 \<le> of_int g" by simp
    with assms True show False by (simp add: total_seconds_def)
  qed
qed

lemma total_seconds_complete:
  assumes gt: "g * 1000000 < d" and small: "\<bar>d\<bar> < 17179869184000000"
  shows "of_int g < total_seconds d"
proof -
  from small have ok: "timedelta_ok d" unfolding timedelta_ok_def by linarith
  have eps: "pow2 (34 - 54) < 1 / 1000000" by (simp add: pow2_def)
  from gt have "g * 1000000 + 1 \<le> d" by simp
  then have "(of_int (g * 1000000 + 1) :: rat) \<le> of_int d" by (simp only: of_int_le_iff)
  then have x: "(of_int g :: rat) + 1 / 1000000 \<le> of_int d / of_int 1000000" by simp
  consider "d = 0" | "0 < d" | "d < 0" by linarith
  then have "of_int g < true_divide d 1000000"
  proof cases
    case 1
    with gt show ?thesis by (simp add: true_divide_def)
  next
    case 2
    from small 2 have "(of_int d :: rat) < 17179869184000000"
      by (metis abs_of_pos of_int_less_iff of_int_numeral)
    then have "of_int d / of_int 1000000 < pow2 34" by (simp add: pow2_def)
    from nearest_double_error [OF 2 _ this] have
      "of_int d / of_int 1000000 - pow2 (34 - 54) \<le> nearest_double d 1000000" by simp
    with x eps 2 show ?thesis by (simp add: true_divide_def)
  next
    case 3
    then have pos: "0 < - d" by simp
    from small 3 have "(of_int (- d) :: rat) < 17179869184000000"
      by (metis abs_of_neg of_int_less_iff of_int_numeral)
    then have "of_int (- d) / of_int 1000000 < pow2 34" by (simp add: pow2_def)
    from nearest_double_error [OF pos _ this] have
      "nearest_double (- d) 1000000 \<le> of_int (- d) / of_int 1000000 + pow2 (34 - 54)" by simp
    moreover have "of_int (- d) / of_int 1000000 \<le> - (of_int g :: rat) - 1 / 1000000"
      using x by simp
    ultimately show ?thesis using eps 3 by (simp add: true_divide_def)
  qed
  with ok show ?thesis by (simp add: total_seconds_def)
qed

lemma total_seconds_exact:
  "\<bar>d\<bar> < 17179869184000000 \<Longrightarrow> (of_int g < total_seconds d) = (g * 1000000 < d)"
  using total_seconds_sound total_seconds_complete by blast





lemma silent_too_long_sound:
  "silent_too_long now seen_at gr \<Longrightarrow> gr * 1000000 < now - seen_at"
  unfolding silent_too_long_def by (rule total_seconds_sound)

lemma silent_too_long_exact:
  "\<bar>now - seen_at\<bar> < 17179869184000000 \<Longrightarrow>
   silent_too_long now seen_at gr = (gr * 1000000 < now - seen_at)"
  unfolding silent_too_long_def by (rule total_seconds_exact)



subsection \<open>\<^verbatim>\<open>check_lost\<close> on a dictionary\<close>

lemma map_of_pre_hit:
  "m \<notin> fst ` set pre \<Longrightarrow> map_of (pre @ (m, i) # rest) m = Some i"
  by (induction pre) auto

lemma delete_absent: "m \<notin> fst ` set ds \<Longrightarrow> AList.delete m ds = ds"
  by (induction ds) auto

lemma delete_pre_hit:
  "m \<notin> fst ` set pre \<Longrightarrow> m \<notin> fst ` set rest \<Longrightarrow>
   AList.delete m (pre @ (m, i) # rest) = pre @ rest"
  by (induction pre) (auto simp: delete_absent)

lemma check_lost_loop_split:
  "distinct (map fst (pre @ rest)) \<Longrightarrow>
   check_lost_loop g wg now (map fst rest) (pre @ rest) =
     Inr (map (\<lambda>(m, i). lost_event m i) (filter (\<lambda>(m, i). expired g wg now i) rest),
          pre @ filter (\<lambda>(m, i). \<not> expired g wg now i) rest)"
proof (induction rest arbitrary: pre)
  case Nil
  then show ?case by simp
next
  case (Cons p rest)
  obtain m i where p: "p = (m, i)" by (cases p)
  from Cons.prems p have npre: "m \<notin> fst ` set pre" and nrest: "m \<notin> fst ` set rest"
    by auto
  have look: "map_of (pre @ (m, i) # rest) m = Some i"
    using npre by (rule map_of_pre_hit)
  show ?case
  proof (cases "expired g wg now i")
    case True
    have d: "distinct (map fst (pre @ rest))" using Cons.prems p by auto
    have del: "AList.delete m (pre @ (m, i) # rest) = pre @ rest"
      using npre nrest by (rule delete_pre_hit)
    from True obtain s where s: "last_seen i = Some s"
      "silent_too_long now s (effective_grace g wg i)"
      by (auto simp: expired_def split: option.splits)
    show ?thesis
      using Cons.IH [OF d] True s by (simp add: p look del del: map_of_append)
  next
    case False
    have d: "distinct (map fst ((pre @ [(m, i)]) @ rest))" using Cons.prems p by auto
    have ih: "check_lost_loop g wg now (map fst rest) (pre @ (m, i) # rest) =
       Inr (map (\<lambda>(m, i). lost_event m i) (filter (\<lambda>(m, i). expired g wg now i) rest),
            pre @ (m, i) # filter (\<lambda>(m, i). \<not> expired g wg now i) rest)"
      using Cons.IH [OF d] by simp
    show ?thesis
      using False ih by (auto simp: p look expired_def simp del: map_of_append split: option.splits)
  qed
qed

lemma check_lost_eq:
  "distinct (map fst (devices t)) \<Longrightarrow>
   check_lost t now =
     Inr (map (\<lambda>(m, i). lost_event m i)
            (filter (\<lambda>(m, i). expired (grace t) (weak_grace t) now i) (devices t)),
          t\<lparr>devices := filter (\<lambda>(m, i). \<not> expired (grace t) (weak_grace t) now i) (devices t)\<rparr>)"
  using check_lost_loop_split [of "[]" "devices t" "grace t" "weak_grace t" now]
  by (simp add: check_lost_def)


subsection \<open>finalize\<close>

lemma finalize_info_events:
  "finalize_info m i = Inr (ev, i') \<Longrightarrow> e \<in> set ev \<Longrightarrow> ev_mac e = m \<and> ev_type e = NEW"
  by (auto simp: finalize_info_def new_event_def Let_def split: option.splits if_splits)

lemma finalize_info_other:
  "finalize_info m i = Inr (ev, i') \<Longrightarrow> m \<noteq> a \<Longrightarrow> events_for a ev = []"
  by (auto simp: events_for_def filter_empty_conv dest: finalize_info_events)

lemma finalize_info_self:
  "finalize_info m i = Inr (ev, i') \<Longrightarrow> events_for m ev = ev"
  by (auto simp: events_for_def filter_id_conv dest: finalize_info_events)

lemma finalize_info_total:
  "seen i \<noteq> None \<Longrightarrow> \<exists>ev i'. finalize_info m i = Inr (ev, i')"
  by (auto simp: finalize_info_def Let_def)

lemma finalize_info_keeps:
  "finalize_info m i = Inr (ev, i') \<Longrightarrow> seen i' = seen i \<and> last_seen i' = last_seen i"
  by (auto simp: finalize_info_def Let_def split: option.splits if_splits)

lemma events_for_append [simp]: "events_for a (xs @ ys) = events_for a xs @ events_for a ys"
  by (simp add: events_for_def)

lemma events_for_Nil [simp]: "events_for a [] = []"
  by (simp add: events_for_def)

lemma finalize_items_total:
  "list_all (\<lambda>(m, i). seen i \<noteq> None) ds \<Longrightarrow> \<exists>evs ds'. finalize_items ds = Inr (evs, ds')"
proof (induction ds)
  case Nil
  then show ?case by simp
next
  case (Cons p ds)
  obtain m i where p: "p = (m, i)" by (cases p)
  from Cons.prems p obtain ev i' where h: "finalize_info m i = Inr (ev, i')"
    using finalize_info_total [of i m] by auto
  from Cons obtain evs ds' where t: "finalize_items ds = Inr (evs, ds')" by auto
  show ?case by (simp add: p h t)
qed

lemma finalize_items_keys:
  "finalize_items ds = Inr (evs, ds') \<Longrightarrow> map fst ds' = map fst ds"
  by (induction ds arbitrary: evs ds') (auto split: sum.splits prod.splits)

lemma finalize_items_absent:
  "finalize_items ds = Inr (evs, ds') \<Longrightarrow> a \<notin> fst ` set ds \<Longrightarrow> events_for a evs = []"
proof (induction ds arbitrary: evs ds')
  case Nil
  then show ?case by simp
next
  case (Cons p ds)
  obtain m i where p: "p = (m, i)" by (cases p)
  from Cons.prems p obtain ev i' evs1 ds1 where
    h: "finalize_info m i = Inr (ev, i')" and t: "finalize_items ds = Inr (evs1, ds1)"
    and e: "evs = ev @ evs1"
    by (auto split: sum.splits prod.splits)
  from Cons.prems p have "m \<noteq> a" "a \<notin> fst ` set ds" by auto
  then show ?case
    using Cons.IH [OF t] finalize_info_other [OF h] by (simp add: e)
qed

lemma finalize_items_at:
  "finalize_items ds = Inr (evs, ds') \<Longrightarrow> distinct (map fst ds) \<Longrightarrow> map_of ds a = Some i \<Longrightarrow>
   \<exists>ev i'. finalize_info a i = Inr (ev, i') \<and> map_of ds' a = Some i' \<and> events_for a evs = ev"
proof (induction ds arbitrary: evs ds')
  case Nil
  then show ?case by simp
next
  case (Cons p ds)
  obtain m j where p: "p = (m, j)" by (cases p)
  from Cons.prems(1) p obtain ev j' evs1 ds1 where
    h: "finalize_info m j = Inr (ev, j')" and t: "finalize_items ds = Inr (evs1, ds1)"
    and e: "evs = ev @ evs1" and d: "ds' = (m, j') # ds1"
    by (auto split: sum.splits prod.splits)
  show ?case
  proof (cases "m = a")
    case True
    with Cons.prems p have ij: "j = i" and na: "a \<notin> fst ` set ds" by auto
    have "events_for a evs1 = []" using t na by (rule finalize_items_absent)
    then show ?thesis
      using h True ij finalize_info_self [OF h] by (simp add: e d)
  next
    case False
    with Cons.prems p have "distinct (map fst ds)" "map_of ds a = Some i" by auto
    from Cons.IH [OF t this] show ?thesis
      using False finalize_info_other [OF h False] by (simp add: e d)
  qed
qed

lemma finalize_items_info_ok:
  "finalize_items ds = Inr (evs, ds') \<Longrightarrow> list_all (\<lambda>(m, i). info_ok i) ds \<Longrightarrow>
   list_all (\<lambda>(m, i). info_ok i) ds'"
proof (induction ds arbitrary: evs ds')
  case Nil
  then show ?case by simp
next
  case (Cons p ds)
  obtain m j where p: "p = (m, j)" by (cases p)
  from Cons.prems(1) p obtain ev j' evs1 ds1 where
    h: "finalize_info m j = Inr (ev, j')" and t: "finalize_items ds = Inr (evs1, ds1)"
    and d: "ds' = (m, j') # ds1"
    by (auto split: sum.splits prod.splits)
  from Cons.prems(2) p have "info_ok j" "list_all (\<lambda>(m, i). info_ok i) ds" by auto
  then show ?case
    using Cons.IH [OF t] finalize_info_keeps [OF h] by (simp add: d info_ok_def)
qed


subsection \<open>new scan, update\<close>

lemma new_scan_keys: "map fst (devices (new_scan t)) = map fst (devices t)"
  by (simp add: new_scan_def comp_def case_prod_beta)

lemma map_of_map_val:
  "map_of (map (\<lambda>(m, i). (m, f i)) ds) a = map_option f (map_of ds a)"
  by (induction ds) auto

lemma new_scan_lookup:
  "map_of (devices (new_scan t)) a = map_option (\<lambda>i. i\<lparr>seen := Some False\<rparr>) (map_of (devices t) a)"
  by (simp add: new_scan_def map_of_map_val)

lemma new_scan_params: "grace (new_scan t) = grace t \<and> weak_grace (new_scan t) = weak_grace t"
  by (simp add: new_scan_def)

lemma list_all_map_val:
  "list_all (\<lambda>(m, i). P i) (map (\<lambda>(m, i). (m, f i)) ds) = list_all (\<lambda>(m, i). P (f i)) ds"
  by (induction ds) auto

lemma new_scan_seen: "list_all (\<lambda>(m, i). seen i \<noteq> None) (devices (new_scan t))"
  by (auto simp: new_scan_def list_all_map_val list_all_iff)

lemma new_scan_ok: "tracker_ok t \<Longrightarrow> tracker_ok (new_scan t)"
  unfolding tracker_ok_def new_scan_keys
  by (auto simp: new_scan_def list_all_map_val info_ok_def list_all_iff)

lemma update_keys:
  "map fst (devices (update t obs)) =
     (if mac obs \<in> set (map fst (devices t)) then map fst (devices t)
      else map fst (devices t) @ [mac obs])"
  by (simp add: update_def Let_def AList.update_keys)

lemma update_lookup_same:
  "map_of (devices (update t obs)) (mac obs) =
     Some ((setdefault (devices t) (mac obs) (default_info obs))
            \<lparr>last_seen := Some (timestamp obs), last_rssi := rssi obs,
             info_name := name obs, info_address_type := address_type obs,
             seen := Some True\<rparr>)"
  by (simp add: update_def Let_def AList.update_conv')

lemma update_lookup_other:
  "a \<noteq> mac obs \<Longrightarrow> map_of (devices (update t obs)) a = map_of (devices t) a"
  by (simp add: update_def Let_def AList.update_conv')

lemma update_params: "grace (update t obs) = grace t \<and> weak_grace (update t obs) = weak_grace t"
  by (simp add: update_def Let_def)

lemma list_all_update:
  "list_all (\<lambda>(m, i). P i) ds \<Longrightarrow> P v \<Longrightarrow> list_all (\<lambda>(m, i). P i) (AList.update k v ds)"
  by (induction ds) auto

lemma update_ok: "tracker_ok t \<Longrightarrow> tracker_ok (update t obs)"
  by (auto simp: tracker_ok_def update_def Let_def AList.distinct_update info_ok_def
           intro!: list_all_update)

lemma update_seen:
  "list_all (\<lambda>(m, i). seen i \<noteq> None) (devices t) \<Longrightarrow>
   list_all (\<lambda>(m, i). seen i \<noteq> None) (devices (update t obs))"
  by (auto simp: update_def Let_def intro!: list_all_update)

subsection \<open>finalize scan, check lost on trackers\<close>

lemma finalize_scan_ok:
  "tracker_ok t \<Longrightarrow> \<exists>evs t'. finalize_scan t = Inr (evs, t') \<and> tracker_ok t'"
proof -
  assume ok: "tracker_ok t"
  then have "list_all (\<lambda>(m, i). seen i \<noteq> None) (devices t)"
    by (auto simp: tracker_ok_def list_all_iff info_ok_def)
  then obtain evs ds' where f: "finalize_items (devices t) = Inr (evs, ds')"
    using finalize_items_total by blast
  have "tracker_ok (t\<lparr>devices := ds'\<rparr>)"
    using ok finalize_items_keys [OF f] finalize_items_info_ok [OF f]
    by (simp add: tracker_ok_def)
  then show ?thesis by (simp add: finalize_scan_def f)
qed

lemma check_lost_ok:
  "tracker_ok t \<Longrightarrow> \<exists>evs t'. check_lost t now = Inr (evs, t') \<and> tracker_ok t'"
  by (auto simp: tracker_ok_def check_lost_eq distinct_map_filter list_all_iff)

lemma step_ok: "tracker_ok t \<Longrightarrow> \<exists>evs t'. step t c = Inr (evs, t') \<and> tracker_ok t'"
  by (cases c) (auto simp: new_scan_ok update_ok finalize_scan_ok check_lost_ok)

lemma run_ok: "tracker_ok t \<Longrightarrow> \<exists>tr t'. run t cs = Inr (tr, t') \<and> tracker_ok t'"
proof (induction cs arbitrary: t)
  case Nil
  then show ?case by simp
next
  case (Cons c cs)
  from step_ok [OF Cons.prems] obtain evs t1 where
    s: "step t c = Inr (evs, t1)" and ok1: "tracker_ok t1" by blast
  from Cons.IH [OF ok1] obtain tr t2 where
    r: "run t1 cs = Inr (tr, t2)" and ok2: "tracker_ok t2" by blast
  show ?case by (simp add: s r ok2)
qed

lemma DeviceTracker_ok: "tracker_ok (DeviceTracker g wg)"
  by (simp add: tracker_ok_def DeviceTracker_def)

subsection \<open>One device across a call\<close>

lemma map_of_filter_val:
  "distinct (map fst ds) \<Longrightarrow>
   map_of (filter (\<lambda>(m, i). P i) ds) a =
     (case map_of ds a of None \<Rightarrow> None | Some i \<Rightarrow> if P i then Some i else None)"
proof (induction ds)
  case Nil
  then show ?case by simp
next
  case (Cons p ds)
  obtain m j where p: "p = (m, j)" by (cases p)
  from Cons.prems p have na: "m \<notin> fst ` set ds" and d: "distinct (map fst ds)" by auto
  from na have none: "map_of ds m = None" by (simp add: map_of_eq_None_iff)
  show ?case using Cons.IH [OF d] none by (auto simp: p)
qed

lemma events_for_lost:
  "distinct (map fst ds) \<Longrightarrow>
   events_for a (map (\<lambda>(m, i). lost_event m i) (filter (\<lambda>(m, i). P i) ds)) =
     (case map_of ds a of None \<Rightarrow> [] | Some i \<Rightarrow> if P i then [lost_event a i] else [])"
proof (induction ds)
  case Nil
  then show ?case by simp
next
  case (Cons p ds)
  obtain m j where p: "p = (m, j)" by (cases p)
  from Cons.prems p have na: "m \<notin> fst ` set ds" and d: "distinct (map fst ds)" by auto
  from na have none: "map_of ds m = None" by (simp add: map_of_eq_None_iff)
  show ?case using Cons.IH [OF d] none by (auto simp: p events_for_def lost_event_def)
qed

lemma check_lost_at:
  assumes "distinct (map fst (devices t))"
  shows "\<exists>evs t'. check_lost t now = Inr (evs, t') \<and>
           grace t' = grace t \<and> weak_grace t' = weak_grace t \<and>
           distinct (map fst (devices t')) \<and>
           events_for a evs =
             (case map_of (devices t) a of None \<Rightarrow> []
              | Some i \<Rightarrow> if expired (grace t) (weak_grace t) now i then [lost_event a i] else []) \<and>
           map_of (devices t') a =
             (case map_of (devices t) a of None \<Rightarrow> None
              | Some i \<Rightarrow> if expired (grace t) (weak_grace t) now i then None else Some i)"
  using assms
  by (auto simp: check_lost_eq events_for_lost map_of_filter_val distinct_map_filter
           split: option.splits)

lemma finalize_scan_at:
  assumes "finalize_scan t = Inr (evs, t')" and "distinct (map fst (devices t))"
  shows "grace t' = grace t \<and> weak_grace t' = weak_grace t \<and>
         map fst (devices t') = map fst (devices t) \<and>
         (case map_of (devices t) a of
            None \<Rightarrow> events_for a evs = [] \<and> map_of (devices t') a = None
          | Some i \<Rightarrow> finalize_info a i = Inr (events_for a evs, the (map_of (devices t') a)) \<and>
                      map_of (devices t') a \<noteq> None)"
proof -
  from assms(1) obtain ds' where f: "finalize_items (devices t) = Inr (evs, ds')"
    and t': "t' = t\<lparr>devices := ds'\<rparr>"
    by (auto simp: finalize_scan_def split: sum.splits)
  have k: "map fst ds' = map fst (devices t)" using f by (rule finalize_items_keys)
  show ?thesis
  proof (cases "map_of (devices t) a")
    case None
    then have na: "a \<notin> fst ` set (devices t)" by (simp add: map_of_eq_None_iff)
    then have "a \<notin> fst ` set ds'" using k by (metis set_map)
    then have "map_of ds' a = None" by (simp add: map_of_eq_None_iff)
    then show ?thesis using None finalize_items_absent [OF f na] k by (simp add: t')
  next
    case (Some i)
    from finalize_items_at [OF f assms(2) Some] show ?thesis
      using Some k by (auto simp: t')
  qed
qed

lemma new_events_for_filter:
  "new_events_for a evs = filter (\<lambda>e. ev_type e = NEW) (events_for a evs)"
  by (auto simp: new_events_for_def events_for_def intro: filter_cong)

lemma lost_events_for_filter:
  "lost_events_for a evs = filter (\<lambda>e. ev_type e = LOST) (events_for a evs)"
  by (auto simp: lost_events_for_def events_for_def intro: filter_cong)

subsection \<open>Runs\<close>

lemma run_append:
  "run t (xs @ ys) =
     (case run t xs of
        Inl e \<Rightarrow> Inl e
      | Inr (tr1, t1) \<Rightarrow>
          (case run t1 ys of Inl e \<Rightarrow> Inl e | Inr (tr2, t2) \<Rightarrow> Inr (tr1 @ tr2, t2)))"
  by (induction xs arbitrary: t) (auto split: sum.splits prod.splits)

lemma run_updates:
  "run t (map Update obss) = Inr (map (\<lambda>obs. (Update obs, [])) obss, foldl update t obss)"
  by (induction obss arbitrary: t) auto

lemma events_of_updates [simp]: "events_of (map (\<lambda>obs. (Update obs, [])) obss) = []"
  by (induction obss) (auto simp: events_of_def)

lemma events_of_simps [simp]:
  "events_of [] = []"
  "events_of ((c, evs) # tr) = evs @ events_of tr"
  "events_of (tr1 @ tr2) = events_of tr1 @ events_of tr2"
  by (simp_all add: events_of_def)

lemma run_scan_ops:
  "run t (scan_ops obss) =
     (case finalize_scan (foldl update (new_scan t) obss) of
        Inl e \<Rightarrow> Inl e
      | Inr (evs, t') \<Rightarrow>
          Inr ((NewScan, []) # map (\<lambda>obs. (Update obs, [])) obss @ [(FinalizeScan, evs)], t'))"
  by (auto simp: scan_ops_def run_append run_updates split: sum.splits)

subsection \<open>Scans\<close>

lemma new_scan_distinct:
  "distinct (map fst (devices t)) \<Longrightarrow> distinct (map fst (devices (new_scan t)))"
  by (simp add: new_scan_keys)

lemma update_distinct:
  "distinct (map fst (devices t)) \<Longrightarrow> distinct (map fst (devices (update t obs)))"
  by (simp add: update_def Let_def AList.distinct_update)

lemma updates_distinct:
  "distinct (map fst (devices t)) \<Longrightarrow> distinct (map fst (devices (foldl update t obss)))"
  by (induction obss arbitrary: t) (auto simp: update_distinct)

lemma updates_params:
  "grace (foldl update t obss) = grace t \<and> weak_grace (foldl update t obss) = weak_grace t"
  by (induction obss arbitrary: t) (auto simp: update_params)

lemma updates_seen:
  "list_all (\<lambda>(m, i). seen i \<noteq> None) (devices t) \<Longrightarrow>
   list_all (\<lambda>(m, i). seen i \<noteq> None) (devices (foldl update t obss))"
  by (induction obss arbitrary: t) (simp_all add: update_seen del: not_None_eq)

lemma updates_other:
  "\<forall>x\<in>set obss. mac x \<noteq> a \<Longrightarrow>
   map_of (devices (foldl update t obss)) a = map_of (devices t) a"
  by (induction obss arbitrary: t) (auto simp: update_lookup_other)

lemma update_consecutive_of: "consecutive_of (update t obs) a = consecutive_of t a"
  by (cases "a = mac obs")
     (auto simp: consecutive_of_def update_lookup_same update_lookup_other setdefault_def
                 default_info_def split: option.splits)

lemma update_active_of: "active_of (update t obs) a = active_of t a"
  by (cases "a = mac obs")
     (auto simp: active_of_def update_lookup_same update_lookup_other setdefault_def
                 default_info_def split: option.splits)

lemma updates_consecutive_of: "consecutive_of (foldl update t obss) a = consecutive_of t a"
  by (induction obss arbitrary: t) (auto simp: update_consecutive_of)

lemma updates_active_of: "active_of (foldl update t obss) a = active_of t a"
  by (induction obss arbitrary: t) (auto simp: update_active_of)

lemma new_scan_consecutive_of: "consecutive_of (new_scan t) a = consecutive_of t a"
  by (auto simp: consecutive_of_def new_scan_lookup split: option.splits)

lemma new_scan_active_of: "active_of (new_scan t) a = active_of t a"
  by (auto simp: active_of_def new_scan_lookup split: option.splits)

lemma scan_total:
  assumes "distinct (map fst (devices t))"
  shows "\<exists>evs t'. finalize_scan (foldl update (new_scan t) obss) = Inr (evs, t') \<and>
           distinct (map fst (devices t')) \<and> grace t' = grace t \<and> weak_grace t' = weak_grace t"
proof -
  let ?t0 = "foldl update (new_scan t) obss"
  have d0: "distinct (map fst (devices ?t0))"
    using assms by (simp add: updates_distinct new_scan_distinct)
  have "list_all (\<lambda>(m, i). seen i \<noteq> None) (devices ?t0)"
    by (rule updates_seen) (rule new_scan_seen)
  then obtain evs ds' where f: "finalize_items (devices ?t0) = Inr (evs, ds')"
    using finalize_items_total by blast
  then have fs: "finalize_scan ?t0 = Inr (evs, ?t0\<lparr>devices := ds'\<rparr>)"
    by (simp add: finalize_scan_def)
  from finalize_scan_at [OF fs d0, of undefined] d0 show ?thesis
    using fs by (simp add: updates_params new_scan_params)
qed

text \<open>A scan in which the device is seen; \<open>obs\<close> is its last observation of the scan.\<close>

lemma scan_hit:
  assumes d: "distinct (map fst (devices t))"
    and a: "mac obs = a" and post: "\<forall>x\<in>set post. mac x \<noteq> a"
  shows "\<exists>tr t'. run t (scan_ops (pre @ obs # post)) = Inr (tr, t') \<and>
           distinct (map fst (devices t')) \<and> grace t' = grace t \<and> weak_grace t' = weak_grace t \<and>
           map_of (devices t') a \<noteq> None \<and>
           consecutive_of t' a = consecutive_of t a + 1 \<and>
           active_of t' a = (active_of t a \<or> consecutive_of t a + 1 \<ge> 2) \<and>
           events_for a (events_of tr) =
             (if \<not> active_of t a \<and> consecutive_of t a + 1 \<ge> 2
              then [\<lparr>ev_type = NEW, ev_mac = a, ev_name = name obs, ev_rssi = rssi obs\<rparr>]
              else [])"
proof -
  let ?t1 = "foldl update (new_scan t) pre"
  let ?t0 = "foldl update (new_scan t) (pre @ obs # post)"
  from scan_total [OF d, of "pre @ obs # post"] obtain evs t' where
    fs: "finalize_scan ?t0 = Inr (evs, t')" and d': "distinct (map fst (devices t'))"
    and g: "grace t' = grace t" "weak_grace t' = weak_grace t" by blast
  have d0: "distinct (map fst (devices ?t0))"
    by (intro updates_distinct new_scan_distinct d)
  have "map_of (devices ?t0) a = map_of (devices (update ?t1 obs)) a"
    using post by (simp add: updates_other)
  then obtain i where i: "map_of (devices ?t0) a = Some i"
    and si: "seen i = Some True" "info_name i = name obs" "last_rssi i = rssi obs"
    using a by (auto simp: update_lookup_same)
  have c0: "consecutive i = consecutive_of t a"
    using updates_consecutive_of [of "new_scan t" "pre @ obs # post" a] i
    by (simp add: consecutive_of_def new_scan_lookup split: option.splits)
  have a0: "active i = active_of t a"
    using updates_active_of [of "new_scan t" "pre @ obs # post" a] i
    by (simp add: active_of_def new_scan_lookup split: option.splits)
  from finalize_scan_at [OF fs d0, of a] i
  have fi: "finalize_info a i = Inr (events_for a evs, the (map_of (devices t') a))"
    and ne: "map_of (devices t') a \<noteq> None" by auto
  from ne obtain i' where i': "map_of (devices t') a = Some i'" by auto
  from fi i' si c0 a0 have
    "consecutive i' = consecutive_of t a + 1 \<and>
     active i' = (active_of t a \<or> consecutive_of t a + 1 \<ge> 2) \<and>
     events_for a evs =
       (if \<not> active_of t a \<and> consecutive_of t a + 1 \<ge> 2
        then [\<lparr>ev_type = NEW, ev_mac = a, ev_name = name obs, ev_rssi = rssi obs\<rparr>]
        else [])"
    by (auto simp: finalize_info_def Let_def new_event_def split: if_splits)
  then show ?thesis
    using fs d' g i' by (simp add: run_scan_ops consecutive_of_def active_of_def)
qed

text \<open>A scan in which the device is not seen.\<close>

lemma scan_miss:
  assumes d: "distinct (map fst (devices t))" and miss: "\<forall>x\<in>set obss. mac x \<noteq> a"
  shows "\<exists>tr t'. run t (scan_ops obss) = Inr (tr, t') \<and>
           distinct (map fst (devices t')) \<and> grace t' = grace t \<and> weak_grace t' = weak_grace t \<and>
           events_for a (events_of tr) = [] \<and>
           map_of (devices t') a =
             map_option (\<lambda>i. i\<lparr>seen := Some False, consecutive := 0\<rparr>) (map_of (devices t) a)"
proof -
  let ?t0 = "foldl update (new_scan t) obss"
  from scan_total [OF d, of obss] obtain evs t' where
    fs: "finalize_scan ?t0 = Inr (evs, t')" and d': "distinct (map fst (devices t'))"
    and g: "grace t' = grace t" "weak_grace t' = weak_grace t" by blast
  have d0: "distinct (map fst (devices ?t0))"
    by (intro updates_distinct new_scan_distinct d)
  have l0: "map_of (devices ?t0) a = map_option (\<lambda>i. i\<lparr>seen := Some False\<rparr>) (map_of (devices t) a)"
    using miss by (simp add: updates_other new_scan_lookup)
  have "events_for a evs = [] \<and>
        map_of (devices t') a =
          map_option (\<lambda>i. i\<lparr>seen := Some False, consecutive := 0\<rparr>) (map_of (devices t) a)"
  proof (cases "map_of (devices t) a")
    case None
    then show ?thesis using finalize_scan_at [OF fs d0, of a] l0 by simp
  next
    case (Some i)
    with l0 have "map_of (devices ?t0) a = Some (i\<lparr>seen := Some False\<rparr>)" by simp
    with finalize_scan_at [OF fs d0, of a] Some show ?thesis
      by (auto simp: finalize_info_def)
  qed
  then show ?thesis using fs d' g by (simp add: run_scan_ops)
qed

subsection \<open>Events of one device in a run\<close>

lemma new_events_for_simps [simp]:
  "new_events_for a [] = []"
  "new_events_for a (xs @ ys) = new_events_for a xs @ new_events_for a ys"
  by (simp_all add: new_events_for_def)

lemma lost_events_for_simps [simp]:
  "lost_events_for a [] = []"
  "lost_events_for a (xs @ ys) = lost_events_for a xs @ lost_events_for a ys"
  by (simp_all add: lost_events_for_def)

lemma no_events_no_new: "events_for a evs = [] \<Longrightarrow> new_events_for a evs = []"
  by (simp add: new_events_for_filter)

lemma no_events_no_lost: "events_for a evs = [] \<Longrightarrow> lost_events_for a evs = []"
  by (simp add: lost_events_for_filter)

lemma check_lost_no_new:
  assumes "distinct (map fst (devices t))" and "check_lost t now = Inr (evs, t')"
  shows "new_events_for a evs = []"
  using check_lost_at [OF assms(1), of now a] assms(2)
  by (auto simp: new_events_for_filter lost_event_def split: option.splits if_splits)

lemma updates_ok: "tracker_ok t \<Longrightarrow> tracker_ok (foldl update t obss)"
  by (induction obss arbitrary: t) (auto simp: update_ok)

lemma tracker_ok_distinct: "tracker_ok t \<Longrightarrow> distinct (map fst (devices t))"
  by (simp add: tracker_ok_def)

lemma step_confirmed:
  assumes ok: "tracker_ok t" and act: "active_of t a" and s: "step t c = Inr (evs, t1)"
  shows "new_events_for a evs = [] \<and> (lost_events_for a evs = [] \<longrightarrow> active_of t1 a)"
proof -
  from ok have d: "distinct (map fst (devices t))" by (rule tracker_ok_distinct)
  from act obtain i where i: "map_of (devices t) a = Some i" "active i"
    by (auto simp: active_of_def split: option.splits)
  show ?thesis
  proof (cases c)
    case NewScan
    with s act show ?thesis by (auto simp: new_scan_active_of)
  next
    case (Update obs)
    with s act show ?thesis by (auto simp: update_active_of)
  next
    case FinalizeScan
    with s have fs: "finalize_scan t = Inr (evs, t1)" by simp
    from finalize_scan_at [OF fs d, of a] i show ?thesis
      by (auto simp: finalize_info_def Let_def active_of_def new_events_for_filter
               split: option.splits if_splits)
  next
    case (CheckLost now)
    with s have cl: "check_lost t now = Inr (evs, t1)" by simp
    from check_lost_at [OF d, of now a] cl i show ?thesis
      by (auto simp: active_of_def new_events_for_filter lost_events_for_filter lost_event_def
               split: if_splits)
  qed
qed

lemma run_confirmed:
  "tracker_ok t \<Longrightarrow> active_of t a \<Longrightarrow> run t cs = Inr (tr, t') \<Longrightarrow>
   lost_events_for a (events_of tr) = [] \<Longrightarrow> new_events_for a (events_of tr) = []"
proof (induction cs arbitrary: t tr)
  case Nil
  then show ?case by simp
next
  case (Cons c cs)
  from Cons.prems(3) obtain evs t1 tr1 where
    s: "step t c = Inr (evs, t1)" and r: "run t1 cs = Inr (tr1, t')"
    and tr: "tr = (c, evs) # tr1"
    by (auto split: sum.splits prod.splits)
  from step_ok [OF Cons.prems(1), of c] s have ok1: "tracker_ok t1" by auto
  from Cons.prems(4) tr have l: "lost_events_for a evs = []"
    "lost_events_for a (events_of tr1) = []" by auto
  from step_confirmed [OF Cons.prems(1,2) s] l have
    n: "new_events_for a evs = []" and act1: "active_of t1 a" by auto
  from Cons.IH [OF ok1 act1 r l(2)] n show ?case by (simp add: tr)
qed

lemma cycles_no_new:
  "distinct (map fst (devices t)) \<Longrightarrow> \<forall>c\<in>set cs. \<forall>x\<in>set (fst c). mac x \<noteq> a \<Longrightarrow>
   \<exists>tr t'. run t (concat (map cycle_ops cs)) = Inr (tr, t') \<and>
           new_events_for a (events_of tr) = []"
proof (induction cs arbitrary: t)
  case Nil
  then show ?case by simp
next
  case (Cons c cs)
  from Cons.prems have miss: "\<forall>x\<in>set (fst c). mac x \<noteq> a" by simp
  from scan_miss [OF Cons.prems(1) miss] obtain tr1 t1 where
    r1: "run t (scan_ops (fst c)) = Inr (tr1, t1)" and d1: "distinct (map fst (devices t1))"
    and e1: "events_for a (events_of tr1) = []" by blast
  from check_lost_at [OF d1, of "snd c" a] obtain evs t2 where
    cl: "check_lost t1 (snd c) = Inr (evs, t2)" and d2: "distinct (map fst (devices t2))"
    by blast
  have e2: "new_events_for a evs = []" using d1 cl by (rule check_lost_no_new)
  from Cons.prems have "\<forall>c\<in>set cs. \<forall>x\<in>set (fst c). mac x \<noteq> a" by simp
  from Cons.IH [OF d2 this] obtain tr3 t3 where
    r3: "run t2 (concat (map cycle_ops cs)) = Inr (tr3, t3)"
    and e3: "new_events_for a (events_of tr3) = []" by blast
  have "run t (cycle_ops c @ concat (map cycle_ops cs)) =
          Inr ((tr1 @ [(CheckLost (snd c), evs)]) @ tr3, t3)"
    by (simp add: cycle_ops_def run_append r1 cl r3)
  then show ?case
    using e1 e2 e3 by (auto simp: no_events_no_new)
qed

lemma expired_seen_consecutive [simp]:
  "expired g wg now (i\<lparr>seen := s, consecutive := c\<rparr>) = expired g wg now i"
  by (simp add: expired_def effective_grace_def split: option.splits)

lemma seen_twice_run:
  "run (DeviceTracker 10 20) (scan_ops [obs] @ scan_ops [obs]) =
     Inr ([(NewScan, []), (Update obs, []), (FinalizeScan, []),
           (NewScan, []), (Update obs, []),
           (FinalizeScan, [\<lparr>ev_type = NEW, ev_mac = mac obs, ev_name = name obs, ev_rssi = rssi obs\<rparr>])],
          seen_twice obs)"
  by (simp add: scan_ops_def DeviceTracker_def new_scan_def update_def setdefault_def
        default_info_def finalize_scan_def finalize_info_def new_event_def seen_twice_def)

lemma events_for_simps2 [simp]: "events_for a (e # evs) = (if ev_mac e = a then e # events_for a evs else events_for a evs)"
  by (simp add: events_for_def)

lemma step_absent:
  assumes ok: "tracker_ok t" and absent: "map_of (devices t) a = None"
    and c: "\<forall>obs. c = Update obs \<longrightarrow> mac obs \<noteq> a"
  shows "\<exists>evs t1. step t c = Inr (evs, t1) \<and> tracker_ok t1 \<and>
           map_of (devices t1) a = None \<and> events_for a evs = []"
proof -
  from ok have d: "distinct (map fst (devices t))" by (rule tracker_ok_distinct)
  from step_ok [OF ok, of c] obtain evs t1 where
    s: "step t c = Inr (evs, t1)" and ok1: "tracker_ok t1" by blast
  have "map_of (devices t1) a = None \<and> events_for a evs = []"
  proof (cases c)
    case NewScan
    with s absent show ?thesis by (auto simp: new_scan_lookup)
  next
    case (Update obs)
    with c have "a \<noteq> mac obs" by auto
    with s Update absent show ?thesis by (auto simp: update_lookup_other)
  next
    case FinalizeScan
    with s have "finalize_scan t = Inr (evs, t1)" by simp
    from finalize_scan_at [OF this d, of a] absent show ?thesis by simp
  next
    case (CheckLost now)
    with s check_lost_at [OF d, of now a] absent show ?thesis by auto
  qed
  with s ok1 show ?thesis by blast
qed

lemma run_absent:
  "tracker_ok t \<Longrightarrow> map_of (devices t) a = None \<Longrightarrow>
   \<forall>obs. Update obs \<in> set cs \<longrightarrow> mac obs \<noteq> a \<Longrightarrow>
   \<exists>tr t'. run t cs = Inr (tr, t') \<and> tracker_ok t' \<and>
           map_of (devices t') a = None \<and> events_for a (events_of tr) = []"
proof (induction cs arbitrary: t)
  case Nil
  then show ?case by simp
next
  case (Cons c cs)
  from Cons.prems(3) have c: "\<forall>obs. c = Update obs \<longrightarrow> mac obs \<noteq> a"
    and cs: "\<forall>obs. Update obs \<in> set cs \<longrightarrow> mac obs \<noteq> a" by auto
  from step_absent [OF Cons.prems(1,2) c] obtain evs t1 where
    s: "step t c = Inr (evs, t1)" and ok1: "tracker_ok t1"
    and l1: "map_of (devices t1) a = None" and e1: "events_for a evs = []" by blast
  from Cons.IH [OF ok1 l1 cs] obtain tr t' where
    r: "run t1 cs = Inr (tr, t')" and ok': "tracker_ok t'"
    and l': "map_of (devices t') a = None" and e': "events_for a (events_of tr) = []" by blast
  show ?case by (simp add: s r ok' l' e1 e')
qed

lemma update_twice:
  "mac obs' = mac obs \<Longrightarrow> update (update t obs) obs' = update t obs'"
  by (simp add: update_def Let_def setdefault_def default_info_def AList.update_conv'
           split: option.splits)

lemma key_iff_lookup: "(a \<in> set (map fst ds)) = (map_of ds a \<noteq> None)"
  by (simp add: map_of_eq_None_iff)

lemma step_tracked:
  assumes d: "distinct (map fst (devices t))" and s: "step t c = Inr (evs, t1)"
  shows "distinct (map fst (devices t1)) \<and>
         tracked_spec a (a \<in> set (map fst (devices t))) ((c, evs) # tr) =
         tracked_spec a (a \<in> set (map fst (devices t1))) tr"
proof (cases c)
  case NewScan
  with s d show ?thesis by (auto simp: new_scan_keys simp del: set_map)
next
  case (Update obs)
  have "(a \<in> set (map fst (devices (update t obs)))) =
        (a \<in> set (map fst (devices t)) \<or> mac obs = a)"
    by (auto simp: update_keys)
  moreover from s Update have "t1 = update t obs" "evs = []" by auto
  ultimately show ?thesis using d Update by (simp add: update_distinct del: set_map)
next
  case FinalizeScan
  with s have "finalize_scan t = Inr (evs, t1)" by simp
  from finalize_scan_at [OF this d, of a] d FinalizeScan show ?thesis
    by (simp del: set_map)
next
  case (CheckLost now)
  with s check_lost_at [OF d, of now a] have
    d1: "distinct (map fst (devices t1))"
    and e: "events_for a evs =
             (case map_of (devices t) a of None \<Rightarrow> []
              | Some i \<Rightarrow> if expired (grace t) (weak_grace t) now i then [lost_event a i] else [])"
    and l: "map_of (devices t1) a =
             (case map_of (devices t) a of None \<Rightarrow> None
              | Some i \<Rightarrow> if expired (grace t) (weak_grace t) now i then None else Some i)"
    by auto
  have "(a \<in> set (map fst (devices t1))) =
        (a \<in> set (map fst (devices t)) \<and> lost_events_for a evs = [])"
    unfolding key_iff_lookup lost_events_for_filter e l
    by (auto simp: lost_event_def split: option.splits)
  with d1 CheckLost show ?thesis by (simp del: set_map)
qed

lemma run_tracked:
  "distinct (map fst (devices t)) \<Longrightarrow> run t cs = Inr (tr, t') \<Longrightarrow>
   (a \<in> set (map fst (devices t'))) = tracked_spec a (a \<in> set (map fst (devices t))) tr"
proof (induction cs arbitrary: t tr)
  case Nil
  then show ?case by simp
next
  case (Cons c cs)
  from Cons.prems(2) obtain evs t1 tr1 where
    s: "step t c = Inr (evs, t1)" and r: "run t1 cs = Inr (tr1, t')"
    and tr: "tr = (c, evs) # tr1"
    by (auto split: sum.splits prod.splits)
  from step_tracked [OF Cons.prems(1) s, of a tr1] have
    d1: "distinct (map fst (devices t1))"
    and st: "tracked_spec a (a \<in> set (map fst (devices t))) ((c, evs) # tr1) =
             tracked_spec a (a \<in> set (map fst (devices t1))) tr1"
    by blast+
  from Cons.IH [OF d1 r] st show ?case by (simp add: tr)
qed

lemma check_lost_keys:
  assumes d: "distinct (map fst (devices t))" and c: "check_lost t now = Inr (evs, t')"
  shows "map fst (devices t') = filter (\<lambda>m. m \<notin> ev_mac ` set evs) (map fst (devices t)) \<and>
         ev_mac ` set evs \<subseteq> set (map fst (devices t)) \<and>
         list_all (\<lambda>e. ev_type e = LOST) evs \<and> distinct (map ev_mac evs)"
proof -
  let ?E = "\<lambda>(m, i). expired (grace t) (weak_grace t) now i"
  from c d have evs: "evs = map (\<lambda>(m, i). lost_event m i) (filter ?E (devices t))"
    and t': "devices t' = filter (\<lambda>(m, i). \<not> expired (grace t) (weak_grace t) now i) (devices t)"
    by (auto simp: check_lost_eq)
  have macs: "map ev_mac evs = map fst (filter ?E (devices t))"
    by (simp add: evs lost_event_def case_prod_beta comp_def)
  then have img: "ev_mac ` set evs = fst ` set (filter ?E (devices t))"
    by (metis set_map)
  have k: "\<And>p. p \<in> set (devices t) \<Longrightarrow>
             (\<not> ?E p) = (fst p \<notin> fst ` set (filter ?E (devices t)))"
  proof -
    fix p assume p: "p \<in> set (devices t)"
    show "(\<not> ?E p) = (fst p \<notin> fst ` set (filter ?E (devices t)))"
    proof
      assume n: "\<not> ?E p"
      show "fst p \<notin> fst ` set (filter ?E (devices t))"
      proof
        assume "fst p \<in> fst ` set (filter ?E (devices t))"
        then obtain q where q: "q \<in> set (devices t)" "?E q" "fst q = fst p" by auto
        with d p have "q = p" by (metis eq_key_imp_eq_value prod.collapse)
        with q n show False by simp
      qed
    next
      assume "fst p \<notin> fst ` set (filter ?E (devices t))"
      with p show "\<not> ?E p" by force
    qed
  qed
  have "map fst (devices t') = filter (\<lambda>m. m \<notin> ev_mac ` set evs) (map fst (devices t))"
    unfolding t' img filter_map comp_def
    by (rule arg_cong [where f = "map fst"], rule filter_cong) (use k in auto)
  moreover have "ev_mac ` set evs \<subseteq> set (map fst (devices t))"
    unfolding img by auto
  moreover have "list_all (\<lambda>e. ev_type e = LOST) evs"
    by (auto simp: evs list_all_iff lost_event_def)
  moreover have "distinct (map ev_mac evs)"
    unfolding macs using d by (rule distinct_map_filter)
  ultimately show ?thesis by blast
qed

lemma mem_events_for: "e \<in> set evs \<Longrightarrow> e \<in> set (events_for (ev_mac e) evs)"
  by (simp add: events_for_def)

lemma finalize_info_event:
  "finalize_info m i = Inr (ev, i') \<Longrightarrow> e \<in> set ev \<Longrightarrow>
   seen i = Some True \<and> \<not> active i \<and> consecutive i + 1 \<ge> 2 \<and>
   e = \<lparr>ev_type = NEW, ev_mac = m, ev_name = info_name i, ev_rssi = last_rssi i\<rparr>"
  by (auto simp: finalize_info_def Let_def new_event_def split: option.splits if_splits)

lemma finalize_scan_justified:
  assumes d: "distinct (map fst (devices t))" and f: "finalize_scan t = Inr (evs, t')"
    and e: "e \<in> set evs"
  shows "justified t FinalizeScan e"
proof -
  from e have m: "e \<in> set (events_for (ev_mac e) evs)" by (rule mem_events_for)
  show ?thesis
  proof (cases "map_of (devices t) (ev_mac e)")
    case None
    with finalize_scan_at [OF f d, of "ev_mac e"] m show ?thesis by simp
  next
    case (Some i)
    with finalize_scan_at [OF f d, of "ev_mac e"] have
      "finalize_info (ev_mac e) i =
         Inr (events_for (ev_mac e) evs, the (map_of (devices t') (ev_mac e)))" by simp
    from finalize_info_event [OF this m] Some show ?thesis
      by (simp add: justified_def)
  qed
qed

lemma check_lost_justified:
  assumes d: "distinct (map fst (devices t))" and c: "check_lost t now = Inr (evs, t')"
    and e: "e \<in> set evs"
  shows "justified t (CheckLost now) e"
proof -
  from e have m: "e \<in> set (events_for (ev_mac e) evs)" by (rule mem_events_for)
  from check_lost_at [OF d, of now "ev_mac e"] c have
    "events_for (ev_mac e) evs =
       (case map_of (devices t) (ev_mac e) of None \<Rightarrow> []
        | Some i \<Rightarrow> if expired (grace t) (weak_grace t) now i
                    then [lost_event (ev_mac e) i] else [])"
    by auto
  with m show ?thesis
    by (auto simp: justified_def expired_def effective_grace_def lost_event_def
             dest: silent_too_long_sound split: option.splits if_splits)
qed

lemma step_justified:
  assumes ok: "tracker_ok t" and s: "step t c = Inr (evs, t')"
  shows "list_all (justified t c) evs"
proof -
  from ok have d: "distinct (map fst (devices t))" by (rule tracker_ok_distinct)
  show ?thesis
  proof (cases c)
    case NewScan
    with s show ?thesis by auto
  next
    case (Update obs)
    with s show ?thesis by auto
  next
    case FinalizeScan
    with s finalize_scan_justified [OF d] show ?thesis by (auto simp: list_all_iff)
  next
    case (CheckLost now)
    with s check_lost_justified [OF d] show ?thesis by (auto simp: list_all_iff)
  qed
qed

lemma step_params:
  assumes ok: "tracker_ok t" and s: "step t c = Inr (evs, t')"
  shows "grace t' = grace t \<and> weak_grace t' = weak_grace t"
proof -
  from ok have d: "distinct (map fst (devices t))" by (rule tracker_ok_distinct)
  show ?thesis
  proof (cases c)
    case NewScan
    with s show ?thesis by (auto simp: new_scan_params)
  next
    case (Update obs)
    with s show ?thesis by (auto simp: update_params)
  next
    case FinalizeScan
    with s have "finalize_scan t = Inr (evs, t')" by simp
    from finalize_scan_at [OF this d] show ?thesis by simp
  next
    case (CheckLost now)
    with s check_lost_at [OF d, of now] show ?thesis by auto
  qed
qed

lemma run_params:
  "tracker_ok t \<Longrightarrow> run t cs = Inr (tr, t') \<Longrightarrow>
   grace t' = grace t \<and> weak_grace t' = weak_grace t"
proof (induction cs arbitrary: t tr)
  case Nil
  then show ?case by simp
next
  case (Cons c cs)
  from Cons.prems(2) obtain evs t1 tr1 where
    s: "step t c = Inr (evs, t1)" and r: "run t1 cs = Inr (tr1, t')"
    by (auto split: sum.splits prod.splits)
  from step_ok [OF Cons.prems(1), of c] s have ok1: "tracker_ok t1" by auto
  from Cons.IH [OF ok1 r] step_params [OF Cons.prems(1) s] show ?case by simp
qed

section \<open>The claims\<close>

text \<open>
  Claim C9. Whatever calls were made on a new tracker, in any order, they all return,
  and every device of the dictionary then has its \<^verbatim>\<open>last_seen\<close>: \<^verbatim>\<open>update\<close> writes
  it in the call that creates the device and no call removes it. The branch of
  \<^verbatim>\<open>check_lost\<close> for a device without \<^verbatim>\<open>last_seen\<close> is taken only at such a device
  of the dictionary the call starts from, so it is never taken.
\<close>

theorem last_seen_always_set:
  "\<exists>tr t. run (DeviceTracker g wg) cs = Inr (tr, t) \<and>
          list_all (\<lambda>(m, i). last_seen i \<noteq> None) (devices t)"
proof -
  from run_ok [OF DeviceTracker_ok] obtain tr t where
    r: "run (DeviceTracker g wg) cs = Inr (tr, t)" and ok: "tracker_ok t" by blast
  from ok have "list_all (\<lambda>(m, i). last_seen i \<noteq> None) (devices t)"
    by (auto simp: tracker_ok_def info_ok_def list_all_iff)
  with r show ?thesis by blast
qed

text \<open>
  Claim C1. A device that the tracker does not know is seen in two scans in a row
  (each scan: \<^verbatim>\<open>new_scan\<close>, the \<^verbatim>\<open>update\<close>s of the scan, \<^verbatim>\<open>finalize_scan\<close>; other
  devices may be seen too, and \<open>obs\<close>, \<open>obs'\<close> are the last observations of the device
  in the two scans). The first \<^verbatim>\<open>finalize_scan\<close> returns no NEW event for it, the
  second returns exactly one, with its address and the name and signal strength of
  \<open>obs'\<close>. Whatever calls follow, they return no NEW event for it unless one of them
  returns a LOST event for it.
\<close>

theorem new_on_second_scan:
  assumes ok: "tracker_ok t" and fresh: "map_of (devices t) a = None"
    and o1: "mac obs = a" "\<forall>x\<in>set post. mac x \<noteq> a"
    and o2: "mac obs' = a" "\<forall>x\<in>set post'. mac x \<noteq> a"
  shows "\<exists>tr1 t1 tr2 t2 tr3 t3.
           run t (scan_ops (pre @ obs # post)) = Inr (tr1, t1) \<and>
           new_events_for a (events_of tr1) = [] \<and>
           run t1 (scan_ops (pre' @ obs' # post')) = Inr (tr2, t2) \<and>
           new_events_for a (events_of tr2) =
             [\<lparr>ev_type = NEW, ev_mac = a, ev_name = name obs', ev_rssi = rssi obs'\<rparr>] \<and>
           run t2 cs = Inr (tr3, t3) \<and>
           (lost_events_for a (events_of tr3) = [] \<longrightarrow> new_events_for a (events_of tr3) = [])"
proof -
  from ok have d: "distinct (map fst (devices t))" by (rule tracker_ok_distinct)
  from fresh have c0: "consecutive_of t a = 0" and a0: "\<not> active_of t a"
    by (simp_all add: consecutive_of_def active_of_def)
  from scan_hit [OF d o1, of pre] c0 a0 obtain tr1 t1 where
    r1: "run t (scan_ops (pre @ obs # post)) = Inr (tr1, t1)"
    and d1: "distinct (map fst (devices t1))"
    and c1: "consecutive_of t1 a = 1" and a1: "\<not> active_of t1 a"
    and e1: "events_for a (events_of tr1) = []"
    by auto
  from run_ok [OF ok, of "scan_ops (pre @ obs # post)"] r1 have ok1: "tracker_ok t1"
    by auto
  from scan_hit [OF d1 o2, of pre'] c1 a1 obtain tr2 t2 where
    r2: "run t1 (scan_ops (pre' @ obs' # post')) = Inr (tr2, t2)"
    and a2: "active_of t2 a"
    and e2: "events_for a (events_of tr2) =
               [\<lparr>ev_type = NEW, ev_mac = a, ev_name = name obs', ev_rssi = rssi obs'\<rparr>]"
    by auto
  from run_ok [OF ok1, of "scan_ops (pre' @ obs' # post')"] r2 have ok2: "tracker_ok t2"
    by auto
  from run_ok [OF ok2, of cs] obtain tr3 t3 where r3: "run t2 cs = Inr (tr3, t3)" by blast
  have n1: "new_events_for a (events_of tr1) = []" using e1 by (rule no_events_no_new)
  have n2: "new_events_for a (events_of tr2) =
              [\<lparr>ev_type = NEW, ev_mac = a, ev_name = name obs', ev_rssi = rssi obs'\<rparr>]"
    by (simp add: new_events_for_filter e2)
  have n3: "lost_events_for a (events_of tr3) = [] \<longrightarrow> new_events_for a (events_of tr3) = []"
    using run_confirmed [OF ok2 a2 r3] by blast
  from r1 n1 r2 n2 r3 n3 show ?thesis by blast
qed

theorem new_on_second_scan_witness:
  "\<exists>tr1 t1 tr2 t2 tr3 t3.
     run (DeviceTracker 10 20) (scan_ops [test_obs]) = Inr (tr1, t1) \<and>
     new_events_for ''AA:BB:CC:DD:EE:01'' (events_of tr1) = [] \<and>
     run t1 (scan_ops [test_obs]) = Inr (tr2, t2) \<and>
     new_events_for ''AA:BB:CC:DD:EE:01'' (events_of tr2) =
       [\<lparr>ev_type = NEW, ev_mac = ''AA:BB:CC:DD:EE:01'', ev_name = ''Test'', ev_rssi = - 50\<rparr>] \<and>
     run t2 (scan_ops [test_obs]) = Inr (tr3, t3) \<and>
     lost_events_for ''AA:BB:CC:DD:EE:01'' (events_of tr3) = [] \<and>
     new_events_for ''AA:BB:CC:DD:EE:01'' (events_of tr3) = []"
proof -
  have h1: "map_of (devices (DeviceTracker 10 20)) ''AA:BB:CC:DD:EE:01'' = None"
    by (simp add: DeviceTracker_def)
  have h2: "mac test_obs = ''AA:BB:CC:DD:EE:01''" by (simp add: test_obs_def)
  have h3: "\<forall>x\<in>set ([]::observation list). mac x \<noteq> ''AA:BB:CC:DD:EE:01''" by simp
  from new_on_second_scan [where pre = "[]" and pre' = "[]" and cs = "scan_ops [test_obs]",
      OF DeviceTracker_ok h1 h2 h3 h2 h3]
  obtain tr1 t1 tr2 t2 tr3 t3 where
    r1: "run (DeviceTracker 10 20) (scan_ops [test_obs]) = Inr (tr1, t1)"
    and n1: "new_events_for ''AA:BB:CC:DD:EE:01'' (events_of tr1) = []"
    and r2: "run t1 (scan_ops [test_obs]) = Inr (tr2, t2)"
    and n2: "new_events_for ''AA:BB:CC:DD:EE:01'' (events_of tr2) =
       [\<lparr>ev_type = NEW, ev_mac = ''AA:BB:CC:DD:EE:01'', ev_name = name test_obs,
         ev_rssi = rssi test_obs\<rparr>]"
    and r3: "run t2 (scan_ops [test_obs]) = Inr (tr3, t3)"
    and n3: "lost_events_for ''AA:BB:CC:DD:EE:01'' (events_of tr3) = [] \<longrightarrow>
             new_events_for ''AA:BB:CC:DD:EE:01'' (events_of tr3) = []"
    by auto
  from run_ok [where cs = "scan_ops [test_obs]", OF DeviceTracker_ok, of 10 20] r1 have "tracker_ok t1" by auto
  from run_ok [OF this, of "scan_ops [test_obs]"] r2 have "tracker_ok t2" by auto
  then have d2: "distinct (map fst (devices t2))" by (rule tracker_ok_distinct)
  from scan_hit [OF d2 h2 h3, of "[]"] r3
  have "events_for ''AA:BB:CC:DD:EE:01'' (events_of tr3) \<noteq> [] \<longrightarrow>
        ev_type (hd (events_for ''AA:BB:CC:DD:EE:01'' (events_of tr3))) = NEW"
    by (auto split: if_splits)
  then have l3: "lost_events_for ''AA:BB:CC:DD:EE:01'' (events_of tr3) = []"
    using scan_hit [OF d2 h2 h3, of "[]"] r3
    by (auto simp: lost_events_for_filter split: if_splits)
  with n3 have "new_events_for ''AA:BB:CC:DD:EE:01'' (events_of tr3) = []" by simp
  with r1 n1 r2 n2 r3 l3 show ?thesis by (auto simp: test_obs_def)
qed

text \<open>
  Claim C2. The tracker does not know a device. One \<^verbatim>\<open>update\<close> for it (among the
  \<^verbatim>\<open>update\<close>s of other devices, \<open>pre\<close> and \<open>post\<close>) and then \<^verbatim>\<open>finalize_scan\<close>: no NEW
  event for it, whatever its signal strength and whatever devices the tracker knows.
  Then any number of passes of the driver's loop (\<^verbatim>\<open>new_scan\<close>, the \<^verbatim>\<open>update\<close>s,
  \<^verbatim>\<open>finalize_scan\<close>, \<^verbatim>\<open>check_lost\<close>) in which the device is not seen: no NEW event for
  it either.
\<close>

theorem no_new_after_one_glimpse:
  assumes ok: "tracker_ok t" and fresh: "map_of (devices t) a = None"
    and o: "mac obs = a" "\<forall>x\<in>set pre. mac x \<noteq> a" "\<forall>x\<in>set post. mac x \<noteq> a"
    and later: "\<forall>c\<in>set cycles. \<forall>x\<in>set (fst c). mac x \<noteq> a"
  shows "\<exists>evs t1 tr t2.
           finalize_scan (foldl update t (pre @ obs # post)) = Inr (evs, t1) \<and>
           new_events_for a evs = [] \<and>
           run t1 (concat (map cycle_ops cycles)) = Inr (tr, t2) \<and>
           new_events_for a (events_of tr) = []"
proof -
  let ?t0 = "foldl update t (pre @ obs # post)"
  have ok0: "tracker_ok ?t0" using ok by (rule updates_ok)
  then have d0: "distinct (map fst (devices ?t0))" by (rule tracker_ok_distinct)
  from finalize_scan_ok [OF ok0] obtain evs t1 where
    fs: "finalize_scan ?t0 = Inr (evs, t1)" and ok1: "tracker_ok t1" by blast
  from fresh have "consecutive_of t a = 0" "\<not> active_of t a"
    by (simp_all add: consecutive_of_def active_of_def)
  then have c0: "consecutive_of ?t0 a = 0"
    by (simp only: updates_consecutive_of)
  have e: "events_for a evs = []"
  proof (cases "map_of (devices ?t0) a")
    case None
    then show ?thesis using finalize_scan_at [OF fs d0, of a] by simp
  next
    case (Some i)
    with c0 have "consecutive i = 0" by (simp add: consecutive_of_def)
    with finalize_scan_at [OF fs d0, of a] Some show ?thesis
      by (auto simp: finalize_info_def Let_def split: option.splits if_splits)
  qed
  from ok1 have d1: "distinct (map fst (devices t1))" by (rule tracker_ok_distinct)
  from cycles_no_new [OF d1 later] obtain tr t2 where
    r: "run t1 (concat (map cycle_ops cycles)) = Inr (tr, t2)"
    and n: "new_events_for a (events_of tr) = []" by blast
  from fs no_events_no_new [OF e] r n show ?thesis by blast
qed

theorem no_new_after_one_glimpse_witness:
  "\<exists>evs t1 tr t2.
     finalize_scan (foldl update (DeviceTracker 10 20) [test_obs_weak, test_obs]) = Inr (evs, t1) \<and>
     new_events_for ''AA:BB:CC:DD:EE:01'' evs = [] \<and>
     run t1 (concat (map cycle_ops [([test_obs_weak], 1000000), ([], 2000000)])) = Inr (tr, t2) \<and>
     new_events_for ''AA:BB:CC:DD:EE:01'' (events_of tr) = []"
proof -
  have h1: "map_of (devices (DeviceTracker 10 20)) ''AA:BB:CC:DD:EE:01'' = None"
    by (simp add: DeviceTracker_def)
  have h2: "mac test_obs = ''AA:BB:CC:DD:EE:01''" by (simp add: test_obs_def)
  have h3: "\<forall>x\<in>set [test_obs_weak]. mac x \<noteq> ''AA:BB:CC:DD:EE:01''"
    by (simp add: test_obs_weak_def)
  have h4: "\<forall>x\<in>set ([]::observation list). mac x \<noteq> ''AA:BB:CC:DD:EE:01''" by simp
  have h5: "\<forall>c\<in>set [([test_obs_weak], 1000000::int), ([], 2000000)].
              \<forall>x\<in>set (fst c). mac x \<noteq> ''AA:BB:CC:DD:EE:01''"
    by (simp add: test_obs_weak_def)
  from no_new_after_one_glimpse [OF DeviceTracker_ok h1 h2 h3 h4 h5]
  show ?thesis by simp
qed

text \<open>
  Claim C5. A device is active (its NEW event was returned). In one scan it is not seen:
  \<^verbatim>\<open>finalize_scan\<close> returns no event for it, sets its \<^verbatim>\<open>consecutive\<close> to 0, leaves
  \<^verbatim>\<open>active\<close> true and keeps the device. It is within its grace at the \<^verbatim>\<open>check_lost\<close>
  of that pass, which keeps it too. In the next scan it is seen again: \<^verbatim>\<open>finalize_scan\<close>
  returns no NEW event for it.
\<close>

theorem no_second_new_after_miss:
  assumes d: "distinct (map fst (devices t))"
    and known: "map_of (devices t) a = Some i" "active i"
    and miss: "\<forall>x\<in>set obss. mac x \<noteq> a"
    and within: "\<not> expired (grace t) (weak_grace t) now i"
    and again: "mac obs = a" "\<forall>x\<in>set post. mac x \<noteq> a"
  shows "\<exists>tr1 t1 evs t2 tr3 t3 i3.
           run t (scan_ops obss) = Inr (tr1, t1) \<and>
           events_for a (events_of tr1) = [] \<and>
           map_of (devices t1) a = Some (i\<lparr>seen := Some False, consecutive := 0\<rparr>) \<and>
           check_lost t1 now = Inr (evs, t2) \<and>
           events_for a evs = [] \<and>
           map_of (devices t2) a = Some (i\<lparr>seen := Some False, consecutive := 0\<rparr>) \<and>
           run t2 (scan_ops (pre @ obs # post)) = Inr (tr3, t3) \<and>
           new_events_for a (events_of tr3) = [] \<and>
           map_of (devices t3) a = Some i3 \<and> active i3 \<and> consecutive i3 = 1"
proof -
  let ?i1 = "i\<lparr>seen := Some False, consecutive := 0\<rparr>"
  from scan_miss [OF d miss] known obtain tr1 t1 where
    r1: "run t (scan_ops obss) = Inr (tr1, t1)" and d1: "distinct (map fst (devices t1))"
    and g1: "grace t1 = grace t" "weak_grace t1 = weak_grace t"
    and e1: "events_for a (events_of tr1) = []"
    and l1: "map_of (devices t1) a = Some ?i1"
    by auto
  from check_lost_at [OF d1, of now a] l1 g1 within obtain evs t2 where
    cl: "check_lost t1 now = Inr (evs, t2)" and d2: "distinct (map fst (devices t2))"
    and e2: "events_for a evs = []" and l2: "map_of (devices t2) a = Some ?i1"
    by auto
  from l2 known have c2: "consecutive_of t2 a = 0" and a2: "active_of t2 a"
    by (simp_all add: consecutive_of_def active_of_def)
  from scan_hit [OF d2 again, of pre] c2 a2 obtain tr3 t3 where
    r3: "run t2 (scan_ops (pre @ obs # post)) = Inr (tr3, t3)"
    and ne: "map_of (devices t3) a \<noteq> None"
    and c3: "consecutive_of t3 a = 1" and a3: "active_of t3 a"
    and e3: "events_for a (events_of tr3) = []"
    by auto
  from ne obtain i3 where l3: "map_of (devices t3) a = Some i3" by auto
  with c3 a3 have "active i3" "consecutive i3 = 1"
    by (simp_all add: consecutive_of_def active_of_def)
  with r1 e1 l1 cl e2 l2 r3 no_events_no_new [OF e3] l3 show ?thesis by blast
qed

theorem no_second_new_after_miss_witness:
  "\<exists>tr1 t1 evs t2 tr3 t3 i3.
     run (seen_twice test_obs_brief) (scan_ops []) = Inr (tr1, t1) \<and>
     events_for ''AA:BB:CC:DD:EE:03'' (events_of tr1) = [] \<and>
     map_of (devices t1) ''AA:BB:CC:DD:EE:03'' =
       Some \<lparr>consecutive = 0, last_rssi = - 50, info_name = ''Test'',
             info_address_type = ''public'', active = True,
             last_seen = Some 0, seen = Some False\<rparr> \<and>
     check_lost t1 1000000 = Inr (evs, t2) \<and>
     events_for ''AA:BB:CC:DD:EE:03'' evs = [] \<and>
     map_of (devices t2) ''AA:BB:CC:DD:EE:03'' =
       Some \<lparr>consecutive = 0, last_rssi = - 50, info_name = ''Test'',
             info_address_type = ''public'', active = True,
             last_seen = Some 0, seen = Some False\<rparr> \<and>
     run t2 (scan_ops [test_obs_again]) = Inr (tr3, t3) \<and>
     new_events_for ''AA:BB:CC:DD:EE:03'' (events_of tr3) = [] \<and>
     map_of (devices t3) ''AA:BB:CC:DD:EE:03'' = Some i3 \<and> active i3 \<and> consecutive i3 = 1"
proof -
  let ?i = "\<lparr>consecutive = 2, last_rssi = - 50, info_name = ''Test'',
             info_address_type = ''public'', active = True,
             last_seen = Some 0, seen = Some True\<rparr>"
  have h1: "distinct (map fst (devices (seen_twice test_obs_brief)))"
    by (simp add: seen_twice_def)
  have h2: "map_of (devices (seen_twice test_obs_brief)) ''AA:BB:CC:DD:EE:03'' = Some ?i"
    by (simp add: seen_twice_def test_obs_brief_def)
  have h3: "active ?i" by simp
  have h4: "\<forall>x\<in>set ([]::observation list). mac x \<noteq> ''AA:BB:CC:DD:EE:03''" by simp
  have h5: "\<not> expired (grace (seen_twice test_obs_brief)) (weak_grace (seen_twice test_obs_brief))
              1000000 ?i"
    by (simp add: seen_twice_def expired_def effective_grace_def silent_too_long_exact)
  have h6: "mac test_obs_again = ''AA:BB:CC:DD:EE:03''" by (simp add: test_obs_again_def)
  from no_second_new_after_miss [where pre = "[]", OF h1 h2 h3 h4 h5 h6 h4]
  show ?thesis by simp
qed




text \<open>
  Claim C3, as stated, fails in \<^verbatim>\<open>test_new_and_lost\<close>: the device was seen at time 0
  with signal strength -50 in two scans, and the first \<^verbatim>\<open>check_lost\<close> at 11 s returns
  its LOST event and deletes it; a second \<^verbatim>\<open>check_lost\<close> at 11 s returns nothing.
\<close>

theorem lost_at_first_check_counterexample:
  "check_lost (seen_twice test_obs) 11000000 =
     Inr ([\<lparr>ev_type = LOST, ev_mac = ''AA:BB:CC:DD:EE:01'', ev_name = ''Test'', ev_rssi = - 50\<rparr>],
          \<lparr>devices = [], grace = 10, weak_grace = 20\<rparr>) \<and>
   check_lost \<lparr>devices = [], grace = 10, weak_grace = 20\<rparr> 11000000 =
     Inr ([], \<lparr>devices = [], grace = 10, weak_grace = 20\<rparr>)"
  by (simp add: check_lost_def seen_twice_def test_obs_def silent_too_long_exact
        effective_grace_def lost_event_def)

text \<open>
  Claim C3, amended. Grace 10 s, weak grace 20 s; a device (active or not) with signal
  strength at least -90 was last seen at \<open>t0\<close>. A \<^verbatim>\<open>check_lost\<close> at any time up to
  \<open>t0\<close> + 10 s returns no event for it and keeps it. The \<^verbatim>\<open>check_lost\<close> at
  \<open>t0\<close> + 11 s returns its LOST event and deletes it, and a second \<^verbatim>\<open>check_lost\<close> at
  \<open>t0\<close> + 11 s returns no event for it.
\<close>

theorem lost_at_first_check_beyond_grace:
  assumes d: "distinct (map fst (devices t))"
    and g: "grace t = 10" "weak_grace t = 20"
    and known: "map_of (devices t) a = Some i" "last_rssi i \<ge> - 90" "last_seen i = Some t0"
  shows "(now \<le> t0 + 10000000 \<longrightarrow>
            (\<exists>evs t'. check_lost t now = Inr (evs, t') \<and> events_for a evs = [] \<and>
                      map_of (devices t') a = Some i)) \<and>
         (\<exists>evs1 t1 evs2 t2.
            check_lost t (t0 + 11000000) = Inr (evs1, t1) \<and>
            events_for a evs1 =
              [\<lparr>ev_type = LOST, ev_mac = a, ev_name = info_name i, ev_rssi = last_rssi i\<rparr>] \<and>
            map_of (devices t1) a = None \<and>
            check_lost t1 (t0 + 11000000) = Inr (evs2, t2) \<and>
            events_for a evs2 = [] \<and> map_of (devices t2) a = None)"
proof (intro conjI impI)
  assume "now \<le> t0 + 10000000"
  with silent_too_long_sound [of now t0 10] have "\<not> silent_too_long now t0 10" by auto
  with check_lost_at [OF d, of now a] g known
  show "\<exists>evs t'. check_lost t now = Inr (evs, t') \<and> events_for a evs = [] \<and>
                 map_of (devices t') a = Some i"
    by (auto simp: expired_def effective_grace_def)
next
  have "silent_too_long (t0 + 11000000) t0 10" by (simp add: silent_too_long_exact)
  with check_lost_at [OF d, of "t0 + 11000000" a] g known obtain evs1 t1 where
    c1: "check_lost t (t0 + 11000000) = Inr (evs1, t1)"
    and d1: "distinct (map fst (devices t1))"
    and e1: "events_for a evs1 =
               [\<lparr>ev_type = LOST, ev_mac = a, ev_name = info_name i, ev_rssi = last_rssi i\<rparr>]"
    and l1: "map_of (devices t1) a = None"
    by (auto simp: expired_def effective_grace_def lost_event_def)
  from check_lost_at [OF d1, of "t0 + 11000000" a] l1 obtain evs2 t2 where
    c2: "check_lost t1 (t0 + 11000000) = Inr (evs2, t2)"
    and e2: "events_for a evs2 = []" and l2: "map_of (devices t2) a = None"
    by auto
  from c1 e1 l1 c2 e2 l2 show "\<exists>evs1 t1 evs2 t2.
            check_lost t (t0 + 11000000) = Inr (evs1, t1) \<and>
            events_for a evs1 =
              [\<lparr>ev_type = LOST, ev_mac = a, ev_name = info_name i, ev_rssi = last_rssi i\<rparr>] \<and>
            map_of (devices t1) a = None \<and>
            check_lost t1 (t0 + 11000000) = Inr (evs2, t2) \<and>
            events_for a evs2 = [] \<and> map_of (devices t2) a = None"
    by blast
qed

theorem lost_at_first_check_beyond_grace_witness:
  "(\<exists>evs t'. check_lost (seen_twice test_obs) 10000000 = Inr (evs, t') \<and>
      events_for ''AA:BB:CC:DD:EE:01'' evs = [] \<and>
      map_of (devices t') ''AA:BB:CC:DD:EE:01'' =
        Some \<lparr>consecutive = 2, last_rssi = - 50, info_name = ''Test'',
              info_address_type = ''public'', active = True,
              last_seen = Some 0, seen = Some True\<rparr>) \<and>
   (\<exists>evs1 t1 evs2 t2.
      check_lost (seen_twice test_obs) 11000000 = Inr (evs1, t1) \<and>
      events_for ''AA:BB:CC:DD:EE:01'' evs1 =
        [\<lparr>ev_type = LOST, ev_mac = ''AA:BB:CC:DD:EE:01'', ev_name = ''Test'', ev_rssi = - 50\<rparr>] \<and>
      map_of (devices t1) ''AA:BB:CC:DD:EE:01'' = None \<and>
      check_lost t1 11000000 = Inr (evs2, t2) \<and>
      events_for ''AA:BB:CC:DD:EE:01'' evs2 = [] \<and>
      map_of (devices t2) ''AA:BB:CC:DD:EE:01'' = None)"
proof -
  let ?i = "\<lparr>consecutive = 2, last_rssi = - 50, info_name = ''Test'',
             info_address_type = ''public'', active = True,
             last_seen = Some 0, seen = Some True\<rparr>"
  have h1: "distinct (map fst (devices (seen_twice test_obs)))"
    by (simp add: seen_twice_def)
  have g: "grace (seen_twice test_obs) = 10" "weak_grace (seen_twice test_obs) = 20"
    by (simp_all add: seen_twice_def)
  have h2: "map_of (devices (seen_twice test_obs)) ''AA:BB:CC:DD:EE:01'' = Some ?i"
    by (simp add: seen_twice_def test_obs_def)
  have h3: "last_rssi ?i \<ge> - 90" by simp
  have h4: "last_seen ?i = Some 0" by simp
  from lost_at_first_check_beyond_grace [OF h1 g h2 h3 h4, of 10000000]
  show ?thesis by simp
qed

text \<open>
  Claim C6. A \<^verbatim>\<open>check_lost\<close> returned a LOST event for a device. The device is then
  gone, and in any calls that follow, \<^verbatim>\<open>check_lost\<close> at any times among them, without
  an \<^verbatim>\<open>update\<close> for the device, no call returns an event for it and it stays gone. An
  \<^verbatim>\<open>update\<close> for it then creates a new record: not active, \<^verbatim>\<open>consecutive\<close> 0.
\<close>

theorem lost_once:
  assumes ok: "tracker_ok t"
    and lost: "check_lost t now = Inr (evs, t1)" "lost_events_for a evs \<noteq> []"
    and quiet: "\<forall>obs. Update obs \<in> set cs \<longrightarrow> mac obs \<noteq> a"
    and fresh: "mac obs = a"
  shows "map_of (devices t1) a = None \<and>
         (\<exists>tr t2. run t1 cs = Inr (tr, t2) \<and>
            events_for a (events_of tr) = [] \<and>
            map_of (devices t2) a = None \<and>
            map_of (devices (update t2 obs)) a =
              Some \<lparr>consecutive = 0, last_rssi = rssi obs, info_name = name obs,
                    info_address_type = address_type obs, active = False,
                    last_seen = Some (timestamp obs), seen = Some True\<rparr>)"
proof -
  from ok have d: "distinct (map fst (devices t))" by (rule tracker_ok_distinct)
  from check_lost_ok [OF ok, of now] lost(1) have ok1: "tracker_ok t1" by auto
  from check_lost_at [OF d, of now a] lost have l1: "map_of (devices t1) a = None"
    by (auto simp: lost_events_for_filter split: option.splits if_splits)
  from run_absent [OF ok1 l1 quiet] obtain tr t2 where
    r: "run t1 cs = Inr (tr, t2)" and l2: "map_of (devices t2) a = None"
    and e: "events_for a (events_of tr) = []" by blast
  have "map_of (devices (update t2 obs)) a =
          Some \<lparr>consecutive = 0, last_rssi = rssi obs, info_name = name obs,
                info_address_type = address_type obs, active = False,
                last_seen = Some (timestamp obs), seen = Some True\<rparr>"
    using l2 fresh update_lookup_same [of t2 obs]
    by (simp add: setdefault_def default_info_def)
  with l1 r l2 e show ?thesis by blast
qed

theorem lost_once_witness:
  "map_of (devices \<lparr>devices = [], grace = 10, weak_grace = 20\<rparr>) ''AA:BB:CC:DD:EE:01'' = None \<and>
   (\<exists>tr t2. run \<lparr>devices = [], grace = 10, weak_grace = 20\<rparr>
               [CheckLost 11000000, NewScan, Update test_obs_weak, FinalizeScan, CheckLost 50000000]
             = Inr (tr, t2) \<and>
      events_for ''AA:BB:CC:DD:EE:01'' (events_of tr) = [] \<and>
      map_of (devices t2) ''AA:BB:CC:DD:EE:01'' = None \<and>
      map_of (devices (update t2 test_obs)) ''AA:BB:CC:DD:EE:01'' =
        Some \<lparr>consecutive = 0, last_rssi = - 50, info_name = ''Test'',
              info_address_type = ''public'', active = False,
              last_seen = Some 0, seen = Some True\<rparr>)"
proof -
  have h1: "tracker_ok (seen_twice test_obs)"
    by (auto simp: tracker_ok_def seen_twice_def info_ok_def)
  have h2: "check_lost (seen_twice test_obs) 11000000 =
     Inr ([\<lparr>ev_type = LOST, ev_mac = ''AA:BB:CC:DD:EE:01'', ev_name = ''Test'', ev_rssi = - 50\<rparr>],
          \<lparr>devices = [], grace = 10, weak_grace = 20\<rparr>)"
    by (simp add: check_lost_def seen_twice_def test_obs_def silent_too_long_exact
          effective_grace_def lost_event_def)
  have h3: "lost_events_for ''AA:BB:CC:DD:EE:01''
              [\<lparr>ev_type = LOST, ev_mac = ''AA:BB:CC:DD:EE:01'', ev_name = ''Test'', ev_rssi = - 50\<rparr>] \<noteq> []"
    by (simp add: lost_events_for_def)
  have h4: "\<forall>obs. Update obs \<in> set [CheckLost 11000000, NewScan, Update test_obs_weak,
               FinalizeScan, CheckLost 50000000] \<longrightarrow> mac obs \<noteq> ''AA:BB:CC:DD:EE:01''"
    by (auto simp: test_obs_weak_def)
  have h5: "mac test_obs = ''AA:BB:CC:DD:EE:01''" by (simp add: test_obs_def)
  from lost_once [OF h1 h2 h3 h4 h5] show ?thesis by (simp add: test_obs_def)
qed

text \<open>
  Claim C10. An \<^verbatim>\<open>update\<close> for a device that the dictionary has changes, in its record,
  \<^verbatim>\<open>last_seen\<close>, \<^verbatim>\<open>last_rssi\<close>, \<^verbatim>\<open>name\<close>, \<^verbatim>\<open>address_type\<close> and \<^verbatim>\<open>seen\<close> only:
  \<^verbatim>\<open>consecutive\<close> and \<^verbatim>\<open>active\<close> stay. The other records, the order of the keys and
  the two graces stay. A second \<^verbatim>\<open>update\<close> for the same device overwrites the first:
  the tracker is the one that the second alone gives.
\<close>

theorem update_frame:
  assumes known: "map_of (devices t) (mac obs) = Some i"
  shows "map_of (devices (update t obs)) (mac obs) =
           Some (i\<lparr>last_seen := Some (timestamp obs), last_rssi := rssi obs,
                   info_name := name obs, info_address_type := address_type obs,
                   seen := Some True\<rparr>) \<and>
         consecutive_of (update t obs) (mac obs) = consecutive i \<and>
         active_of (update t obs) (mac obs) = active i \<and>
         (\<forall>a. a \<noteq> mac obs \<longrightarrow> map_of (devices (update t obs)) a = map_of (devices t) a) \<and>
         map fst (devices (update t obs)) = map fst (devices t) \<and>
         grace (update t obs) = grace t \<and> weak_grace (update t obs) = weak_grace t \<and>
         (mac obs' = mac obs \<longrightarrow> update (update t obs) obs' = update t obs')"
proof -
  from known have k: "mac obs \<in> set (map fst (devices t))"
    by (metis map_of_eq_None_iff option.distinct(1) set_map)
  have same: "map_of (devices (update t obs)) (mac obs) =
           Some (i\<lparr>last_seen := Some (timestamp obs), last_rssi := rssi obs,
                   info_name := name obs, info_address_type := address_type obs,
                   seen := Some True\<rparr>)"
    using known by (simp add: update_lookup_same setdefault_def)
  have c: "consecutive_of (update t obs) (mac obs) = consecutive i"
    by (simp add: consecutive_of_def same)
  have a: "active_of (update t obs) (mac obs) = active i"
    by (simp add: active_of_def same)
  have keys: "map fst (devices (update t obs)) = map fst (devices t)"
    using k by (simp only: update_keys if_True)
  show ?thesis
    using same c a keys by (simp add: update_lookup_other update_params update_twice)
qed

theorem update_frame_witness:
  "map_of (devices (update (seen_twice test_obs_brief) test_obs_again)) ''AA:BB:CC:DD:EE:03'' =
     Some \<lparr>consecutive = 2, last_rssi = - 50, info_name = ''Test'',
           info_address_type = ''public'', active = True,
           last_seen = Some 2000000, seen = Some True\<rparr> \<and>
   map fst (devices (update (seen_twice test_obs_brief) test_obs_again)) = [''AA:BB:CC:DD:EE:03''] \<and>
   update (update (seen_twice test_obs_brief) test_obs_again) test_obs_brief =
     update (seen_twice test_obs_brief) test_obs_brief"
proof -
  have h: "map_of (devices (seen_twice test_obs_brief)) (mac test_obs_again) =
     Some \<lparr>consecutive = 2, last_rssi = - 50, info_name = ''Test'',
           info_address_type = ''public'', active = True,
           last_seen = Some 0, seen = Some True\<rparr>"
    by (simp add: seen_twice_def test_obs_brief_def test_obs_again_def)
  have m: "mac test_obs_again = ''AA:BB:CC:DD:EE:03''" "mac test_obs_brief = ''AA:BB:CC:DD:EE:03''"
    by (simp_all add: test_obs_again_def test_obs_brief_def)
  have k: "map fst (devices (seen_twice test_obs_brief)) = [''AA:BB:CC:DD:EE:03'']"
    by (simp add: seen_twice_def test_obs_brief_def)
  from update_frame [OF h, of test_obs_brief] m k show ?thesis
    by (simp add: test_obs_again_def)
qed

text \<open>
  Claim C7. After any calls on a new tracker, a device is in the dictionary if and only
  if an \<^verbatim>\<open>update\<close> for it was made and no \<^verbatim>\<open>check_lost\<close> since returned a LOST event
  for it. From there, \<^verbatim>\<open>new_scan\<close> and \<^verbatim>\<open>finalize_scan\<close> leave the keys as they are,
  \<^verbatim>\<open>update\<close> adds at most the key of its observation, and \<^verbatim>\<open>check_lost\<close> deletes
  exactly the keys of the events it returns, all LOST events of devices it had.
\<close>

theorem record_exists_iff_observed_and_not_lost:
  "\<exists>tr t. run (DeviceTracker g wg) cs = Inr (tr, t) \<and>
     (a \<in> set (map fst (devices t))) = tracked_spec a False tr \<and>
     map fst (devices (new_scan t)) = map fst (devices t) \<and>
     map fst (devices (update t obs)) =
       (if mac obs \<in> set (map fst (devices t)) then map fst (devices t)
        else map fst (devices t) @ [mac obs]) \<and>
     (\<exists>evs t'. finalize_scan t = Inr (evs, t') \<and> map fst (devices t') = map fst (devices t)) \<and>
     (\<exists>evs t'. check_lost t now = Inr (evs, t') \<and>
        map fst (devices t') = filter (\<lambda>m. m \<notin> ev_mac ` set evs) (map fst (devices t)) \<and>
        ev_mac ` set evs \<subseteq> set (map fst (devices t)) \<and>
        list_all (\<lambda>e. ev_type e = LOST) evs)"
proof -
  from run_ok [OF DeviceTracker_ok] obtain tr t where
    r: "run (DeviceTracker g wg) cs = Inr (tr, t)" and ok: "tracker_ok t" by blast
  from ok have d: "distinct (map fst (devices t))" by (rule tracker_ok_distinct)
  have d0: "distinct (map fst (devices (DeviceTracker g wg)))"
    by (simp add: DeviceTracker_def)
  have tracked: "(a \<in> set (map fst (devices t))) = tracked_spec a False tr"
    using run_tracked [OF d0 r, of a] by (simp add: DeviceTracker_def)
  from finalize_scan_ok [OF ok] obtain evs1 t1 where
    f: "finalize_scan t = Inr (evs1, t1)" by blast
  from finalize_scan_at [OF f d] have fk: "map fst (devices t1) = map fst (devices t)" by simp
  from check_lost_ok [OF ok, of now] obtain evs2 t2 where
    c: "check_lost t now = Inr (evs2, t2)" by blast
  note ck = check_lost_keys [OF d c]
  from r tracked f fk c ck show ?thesis
    by (simp add: new_scan_keys update_keys)
qed

text \<open>
  Claim C8. After any calls on a new tracker, in any order, every call has returned, and
  the state is a dictionary with distinct keys whose devices all have \<^verbatim>\<open>seen\<close> and
  \<^verbatim>\<open>last_seen\<close>, with the graces it was made with. Any next call returns too, leaves
  such a state, and returns only events that the state it started from justifies.
  \<^verbatim>\<open>check_lost\<close> on a new tracker returns the empty list.
\<close>

theorem calls_total_and_safe:
  "\<exists>tr t evs t'.
     run (DeviceTracker g wg) cs = Inr (tr, t) \<and>
     tracker_ok t \<and> grace t = g \<and> weak_grace t = wg \<and>
     step t c = Inr (evs, t') \<and>
     tracker_ok t' \<and> grace t' = g \<and> weak_grace t' = wg \<and>
     list_all (justified t c) evs \<and>
     check_lost (DeviceTracker g wg) now = Inr ([], DeviceTracker g wg)"
proof -
  from run_ok [OF DeviceTracker_ok] obtain tr t where
    r: "run (DeviceTracker g wg) cs = Inr (tr, t)" and ok: "tracker_ok t" by blast
  from run_params [OF DeviceTracker_ok r] have p: "grace t = g" "weak_grace t = wg"
    by (simp_all add: DeviceTracker_def)
  from step_ok [OF ok, of c] obtain evs t' where
    s: "step t c = Inr (evs, t')" and ok': "tracker_ok t'" by blast
  from step_params [OF ok s] p have p': "grace t' = g" "weak_grace t' = wg" by simp_all
  have j: "list_all (justified t c) evs" using ok s by (rule step_justified)
  have "check_lost (DeviceTracker g wg) now = Inr ([], DeviceTracker g wg)"
    by (simp add: check_lost_def DeviceTracker_def)
  with r ok p s ok' p' j show ?thesis by blast
qed

end
